theory Spec2Isabelle
  imports Main "HOL-Library.Char_ord" "HOL-Library.Multiset"
begin

section \<open>Strings and character classes\<close>

text \<open>
  The program is TypeScript. Its strings are sequences of UTF-16 code units; the
  embedding uses \<open>string\<close> (a list of 8-bit \<open>char\<close>), that is, the code units
  \<open>0x00\<close> to \<open>0xFF\<close>. Every character that the program's regular expressions and
  string constants mention is ASCII. The classes below are the ECMAScript ones, cut
  down to that range: \<open>LineTerminator\<close> (what \<open>.\<close> refuses and where \<open>^\<close> and \<open>$\<close>
  anchor under the \<open>m\<close> flag), \<open>\d\<close>, \<open>\w\<close> and \<open>\s\<close> (also what \<open>trim\<close> strips).
\<close>

definition is_line_terminator :: "char \<Rightarrow> bool" where
  "is_line_terminator c = (c = CHR 0x0A \<or> c = CHR 0x0D)"

definition is_digit :: "char \<Rightarrow> bool" where
  "is_digit c = (CHR ''0'' \<le> c \<and> c \<le> CHR ''9'')"

definition is_word :: "char \<Rightarrow> bool" where
  "is_word c = ((CHR ''a'' \<le> c \<and> c \<le> CHR ''z'') \<or> (CHR ''A'' \<le> c \<and> c \<le> CHR ''Z'')
      \<or> is_digit c \<or> c = CHR ''_'')"

definition is_space :: "char \<Rightarrow> bool" where
  "is_space c = (c = CHR 0x09 \<or> c = CHR 0x0A \<or> c = CHR 0x0B \<or> c = CHR 0x0C \<or> c = CHR 0x0D
      \<or> c = CHR 0x20 \<or> c = CHR 0xA0)"

definition lowers :: string where
  "lowers = ''abcdefghijklmnopqrstuvwxyz''"

definition uppers :: string where
  "uppers = ''ABCDEFGHIJKLMNOPQRSTUVWXYZ''"

text \<open>
  \<open>Canonicalize\<close> of the \<open>i\<close> flag (without \<open>u\<close>): a character is compared through
  its upper case. Only the ASCII letters are folded; a code unit from \<open>0x80\<close> on never
  folds onto an ASCII one, and the patterns of this program hold ASCII only.
\<close>

definition canonicalize :: "char \<Rightarrow> char" where
  "canonicalize c = (case map_of (zip lowers uppers) c of Some u \<Rightarrow> u | None \<Rightarrow> c)"

definition lower_variant :: "char \<Rightarrow> char" where
  "lower_variant c = (case map_of (zip uppers lowers) c of Some l \<Rightarrow> l | None \<Rightarrow> c)"


fun starts_with :: "string \<Rightarrow> string \<Rightarrow> bool" where
  "starts_with s [] = True"
| "starts_with [] (p # ps) = False"
| "starts_with (c # cs) (p # ps) = (c = p \<and> starts_with cs ps)"

text \<open>\<open>String.prototype.includes\<close>: the argument occurs as a contiguous substring.\<close>

fun includes_str :: "string \<Rightarrow> string \<Rightarrow> bool" where
  "includes_str [] sub = (sub = [])"
| "includes_str (c # cs) sub = (starts_with (c # cs) sub \<or> includes_str cs sub)"

text \<open>\<open>String.prototype.trim\<close>.\<close>

definition trim :: "string \<Rightarrow> string" where
  "trim s = rev (dropWhile is_space (rev (dropWhile is_space s)))"

section \<open>Regular expressions\<close>

text \<open>
  The renderer and the highlighter are chains of \<open>String.prototype.replace\<close> calls on
  regular-expression literals. The literals are embedded as terms of the type \<open>regex\<close>
  and run by a backtracking matcher that follows the ECMAScript semantics of the
  constructs the program uses: literal characters, \<open>.\<close>, character classes, sequence,
  alternation, greedy and lazy quantifiers, capture groups, \<open>^\<close>, \<open>$\<close> and \<open>\b\<close>, under the
  flags \<open>g\<close>, \<open>i\<close>, \<open>m\<close> and \<open>s\<close>.
\<close>

datatype class_item = Chr char | Range char char | Word | Digit | Space | NonSpace

datatype regex =
    Lit string
  | Dot
  | Class bool "class_item list"
  | Seq regex regex
  | Alt regex regex
  | Rep bool nat "nat option" regex
  | Grp nat regex
  | Bol
  | Eol
  | WordB

text \<open>
  \<open>Class neg items\<close> is \<open>[items]\<close>, or \<open>[^items]\<close> when \<open>neg\<close> holds. \<open>Rep greedy lo hi r\<close>
  is \<open>r{lo,hi}\<close> (\<open>hi = None\<close>: unbounded), lazy unless \<open>greedy\<close>. \<open>Grp n r\<close> is the
  \<open>n\<close>-th capture group. \<open>Bol\<close>, \<open>Eol\<close> and \<open>WordB\<close> are \<open>^\<close>, \<open>$\<close> and \<open>\b\<close>.
\<close>

fun seq :: "regex list \<Rightarrow> regex" where
  "seq [] = Lit []"
| "seq [r] = r"
| "seq (r # rs) = Seq r (seq rs)"

definition star :: "regex \<Rightarrow> regex" where
  "star r = Rep True 0 None r"

definition star_lazy :: "regex \<Rightarrow> regex" where
  "star_lazy r = Rep False 0 None r"

definition plus1 :: "regex \<Rightarrow> regex" where
  "plus1 r = Rep True 1 None r"

definition opt :: "regex \<Rightarrow> regex" where
  "opt r = Rep True 0 (Some 1) r"

datatype flags = Flags (fg: bool) (fi: bool) (fm: bool) (fs: bool)

definition fl_g :: flags where
  "fl_g = Flags True False False False"

definition fl_gm :: flags where
  "fl_gm = Flags True False True False"

definition fl_gim :: flags where
  "fl_gim = Flags True True True False"

definition fl_s :: flags where
  "fl_s = Flags False False False True"

text \<open>
  A match state: the character before the current position (for \<open>^\<close> and \<open>\b\<close>), the
  input from the current position on, and the captures set so far. A group that has
  not taken part in the match has no entry (JavaScript's \<open>undefined\<close>).
\<close>

datatype mstate = MState (prev: "char option") (rest: string) (caps: "(nat \<times> string) list")

text \<open>
  The matcher's continuation is a stack of frames: a regular expression still to be
  matched, the end of a capture group (with the input at its start), or the check of
  a quantifier with minimum zero that its last iteration has consumed input
  (ECMAScript's RepeatMatcher refuses an empty iteration).
\<close>

datatype frame = R regex | Close nat string | Prog nat

definition char_eq :: "flags \<Rightarrow> char \<Rightarrow> char \<Rightarrow> bool" where
  "char_eq f a c = (if fi f then canonicalize a = canonicalize c else a = c)"

fun in_item :: "class_item \<Rightarrow> char \<Rightarrow> bool" where
  "in_item (Chr a) c = (a = c)"
| "in_item (Range a b) c = (a \<le> c \<and> c \<le> b)"
| "in_item Word c = is_word c"
| "in_item Digit c = is_digit c"
| "in_item Space c = is_space c"
| "in_item NonSpace c = (\<not> is_space c)"

text \<open>
  Under the \<open>i\<close> flag a character is in a class when some member of the class has
  the same canonical form: the members to try are its upper and its lower variant.
\<close>

definition in_class :: "flags \<Rightarrow> class_item list \<Rightarrow> char \<Rightarrow> bool" where
  "in_class f items c =
     (if fi f then list_ex (\<lambda>it. in_item it (canonicalize c) \<or> in_item it (lower_variant c)) items
      else list_ex (\<lambda>it. in_item it c) items)"

fun groups :: "regex \<Rightarrow> nat list" where
  "groups (Seq a b) = groups a @ groups b"
| "groups (Alt a b) = groups a @ groups b"
| "groups (Rep g lo hi r) = groups r"
| "groups (Grp n r) = n # groups r"
| "groups _ = []"

text \<open>Each iteration of a quantifier starts with the captures of its body cleared.\<close>

definition reset :: "regex \<Rightarrow> mstate \<Rightarrow> mstate" where
  "reset r s = MState (prev s) (rest s) (filter (\<lambda>(n, v). n \<notin> set (groups r)) (caps s))"

definition setcap :: "nat \<Rightarrow> string \<Rightarrow> mstate \<Rightarrow> mstate" where
  "setcap n v s = MState (prev s) (rest s) ((n, v) # filter (\<lambda>(k, w). k \<noteq> n) (caps s))"

fun dec :: "nat option \<Rightarrow> nat option" where
  "dec None = None"
| "dec (Some n) = Some (n - 1)"

fun at_bol :: "flags \<Rightarrow> char option \<Rightarrow> bool" where
  "at_bol f None = True"
| "at_bol f (Some c) = (fm f \<and> is_line_terminator c)"

fun at_eol :: "flags \<Rightarrow> string \<Rightarrow> bool" where
  "at_eol f [] = True"
| "at_eol f (c # cs) = (fm f \<and> is_line_terminator c)"

fun word_before :: "char option \<Rightarrow> bool" where
  "word_before None = False"
| "word_before (Some c) = is_word c"

fun word_after :: "string \<Rightarrow> bool" where
  "word_after [] = False"
| "word_after (c # cs) = is_word c"

text \<open>The measure of the matcher's termination proof.\<close>

fun regex_weight :: "regex \<Rightarrow> nat" where
  "regex_weight (Seq a b) = regex_weight a + regex_weight b + 1"
| "regex_weight (Alt a b) = regex_weight a + regex_weight b + 1"
| "regex_weight (Rep g lo hi r) = (lo + 1) * (regex_weight r + 2) + 1"
| "regex_weight (Grp n r) = regex_weight r + 2"
| "regex_weight _ = 1"

fun stack_weight :: "nat \<Rightarrow> frame list \<Rightarrow> nat" where
  "stack_weight n [] = 0"
| "stack_weight n (R r # k) = regex_weight r + stack_weight n k"
| "stack_weight n (Close g st # k) = 1 + stack_weight n k"
| "stack_weight n (Prog p # k) = (if n < p then 1 + stack_weight n k else 1)"

text \<open>
  \<open>matcher f k s\<close> runs the frames \<open>k\<close> from the state \<open>s\<close> and returns the end state of
  the first successful path in backtracking order, or \<open>None\<close> when every path fails.
  It terminates on every input: a step consumes input, or shrinks the frames that can
  still run before input must be consumed.
\<close>

function matcher :: "flags \<Rightarrow> frame list \<Rightarrow> mstate \<Rightarrow> mstate option" where
  "matcher f [] s = Some s"
| "matcher f (Prog n # k) s = (if length (rest s) < n then matcher f k s else None)"
| "matcher f (Close g st # k) s =
     matcher f k (setcap g (take (length st - length (rest s)) st) s)"
| "matcher f (R (Lit []) # k) s = matcher f k s"
| "matcher f (R (Lit (a # as)) # k) s =
     (case rest s of [] \<Rightarrow> None
      | c # cs \<Rightarrow> if char_eq f a c then matcher f (R (Lit as) # k) (MState (Some c) cs (caps s))
                  else None)"
| "matcher f (R Dot # k) s =
     (case rest s of [] \<Rightarrow> None
      | c # cs \<Rightarrow> if fs f \<or> \<not> is_line_terminator c then matcher f k (MState (Some c) cs (caps s))
                  else None)"
| "matcher f (R (Class neg items) # k) s =
     (case rest s of [] \<Rightarrow> None
      | c # cs \<Rightarrow> if in_class f items c \<noteq> neg then matcher f k (MState (Some c) cs (caps s))
                  else None)"
| "matcher f (R (Seq a b) # k) s = matcher f (R a # R b # k) s"
| "matcher f (R (Alt a b) # k) s =
     (case matcher f (R a # k) s of Some z \<Rightarrow> Some z | None \<Rightarrow> matcher f (R b # k) s)"
| "matcher f (R (Rep g lo hi r) # k) s =
     (if hi = Some 0 then matcher f k s
      else if 0 < lo then matcher f (R r # R (Rep g (lo - 1) (dec hi) r) # k) (reset r s)
      else if g then
        (case matcher f (R r # Prog (length (rest s)) # R (Rep g 0 (dec hi) r) # k) (reset r s) of
           Some z \<Rightarrow> Some z
         | None \<Rightarrow> matcher f k s)
      else
        (case matcher f k s of
           Some z \<Rightarrow> Some z
         | None \<Rightarrow> matcher f (R r # Prog (length (rest s)) # R (Rep g 0 (dec hi) r) # k) (reset r s)))"
| "matcher f (R (Grp n r) # k) s = matcher f (R r # Close n (rest s) # k) s"
| "matcher f (R Bol # k) s = (if at_bol f (prev s) then matcher f k s else None)"
| "matcher f (R Eol # k) s = (if at_eol f (rest s) then matcher f k s else None)"
| "matcher f (R WordB # k) s =
     (if word_before (prev s) \<noteq> word_after (rest s) then matcher f k s else None)"
  by pat_completeness auto
termination
  by (relation "measures [\<lambda>(f, k, s). length (rest s), \<lambda>(f, k, s). stack_weight (length (rest s)) k]")
     (auto simp: setcap_def reset_def)

section \<open>String.prototype.replace\<close>

text \<open>
  A replacement string is a list of parts: literal text and group references \<open>$n\<close>.
  A group that did not take part in the match is replaced by the empty string.
\<close>

datatype rpart = T string | G nat

fun expand :: "rpart list \<Rightarrow> (nat \<times> string) list \<Rightarrow> string" where
  "expand [] c = []"
| "expand (T t # ps) c = t @ expand ps c"
| "expand (G n # ps) c = (case map_of c n of None \<Rightarrow> [] | Some v \<Rightarrow> v) @ expand ps c"

text \<open>
  \<open>replace_from f r tmpl p cs\<close> is the replacement of the input from a position on: \<open>cs\<close>
  is the input from there, \<open>p\<close> the character before it. The match is tried at every
  position, leftmost first. Without the \<open>g\<close> flag only the first match is replaced;
  with it the search goes on behind each match (one character further after an empty
  match).
\<close>

function replace_from :: "flags \<Rightarrow> regex \<Rightarrow> rpart list \<Rightarrow> char option \<Rightarrow> string \<Rightarrow> string" where
  "replace_from f r tmpl p cs =
     (case matcher f [R r] (MState p cs []) of
        None \<Rightarrow> (case cs of [] \<Rightarrow> [] | c # cs' \<Rightarrow> c # replace_from f r tmpl (Some c) cs')
      | Some s \<Rightarrow>
          expand tmpl (caps s) @
          (if \<not> fg f then drop (length cs - length (rest s)) cs
           else if length cs - length (rest s) = 0 then
             (case cs of [] \<Rightarrow> [] | c # cs' \<Rightarrow> c # replace_from f r tmpl (Some c) cs')
           else replace_from f r tmpl (Some (last (take (length cs - length (rest s)) cs)))
                  (drop (length cs - length (rest s)) cs)))"
  by pat_completeness auto
termination
  by (relation "measure (\<lambda>(f, r, tmpl, p, cs). length cs)") auto

definition replace :: "flags \<Rightarrow> regex \<Rightarrow> rpart list \<Rightarrow> string \<Rightarrow> string" where
  "replace f r tmpl s = replace_from f r tmpl None s"

text \<open>
  \<open>replace\<close> with a replacer function. The function gets the captures (a group that
  did not take part is \<open>undefined\<close>: no entry) and may throw; then the call throws.
\<close>

datatype error = TypeError

function replace_fn_from ::
  "flags \<Rightarrow> regex \<Rightarrow> ((nat \<times> string) list \<Rightarrow> error + string) \<Rightarrow> char option \<Rightarrow> string \<Rightarrow> error + string"
where
  "replace_fn_from f r cb p cs =
     (case matcher f [R r] (MState p cs []) of
        None \<Rightarrow>
          (case cs of [] \<Rightarrow> Inr []
           | c # cs' \<Rightarrow>
               (case replace_fn_from f r cb (Some c) cs' of Inl e \<Rightarrow> Inl e | Inr t \<Rightarrow> Inr (c # t)))
      | Some s \<Rightarrow>
          (case cb (caps s) of
             Inl e \<Rightarrow> Inl e
           | Inr out \<Rightarrow>
               (if \<not> fg f then Inr (out @ drop (length cs - length (rest s)) cs)
                else if length cs - length (rest s) = 0 then
                  (case cs of [] \<Rightarrow> Inr out
                   | c # cs' \<Rightarrow>
                       (case replace_fn_from f r cb (Some c) cs' of
                          Inl e \<Rightarrow> Inl e | Inr t \<Rightarrow> Inr (out @ c # t)))
                else
                  (case replace_fn_from f r cb (Some (last (take (length cs - length (rest s)) cs)))
                          (drop (length cs - length (rest s)) cs) of
                     Inl e \<Rightarrow> Inl e | Inr t \<Rightarrow> Inr (out @ t)))))"
  by pat_completeness auto
termination
  by (relation "measure (\<lambda>(f, r, cb, p, cs). length cs)") auto

definition replace_fn ::
  "flags \<Rightarrow> regex \<Rightarrow> ((nat \<times> string) list \<Rightarrow> error + string) \<Rightarrow> string \<Rightarrow> error + string"
where
  "replace_fn f r cb s = replace_fn_from f r cb None s"

section \<open>The guide viewer: syntax highlighter\<close>

text \<open>
  \<open>escapeHtml\<close> assigns the text to \<open>textContent\<close> of a fresh \<open>div\<close> and reads
  \<open>innerHTML\<close> back. The DOM is not part of the repository; by the HTML standard's
  serialisation of a text node, \<open>&\<close>, \<open><\<close>, \<open>>\<close> and the no-break space are
  replaced by their entities and every other character is kept.
\<close>

fun escapeChar :: "char \<Rightarrow> string" where
  "escapeChar c =
     (if c = CHR ''&'' then ''&amp;''
      else if c = CHR ''<'' then ''&lt;''
      else if c = CHR ''>'' then ''&gt;''
      else if c = CHR 0xA0 then ''&nbsp;''
      else [c])"

definition escapeHtml :: "string \<Rightarrow> string" where
  "escapeHtml text = concat (map escapeChar text)"

definition keywords_list :: "string list" where
  "keywords_list =
    [''public'', ''private'', ''protected'', ''class'', ''interface'', ''extends'', ''implements'',
     ''import'', ''package'', ''return'', ''if'', ''else'', ''for'', ''while'', ''do'', ''switch'',
     ''case'', ''break'', ''continue'', ''new'', ''this'', ''super'', ''static'', ''final'',
     ''abstract'', ''void'', ''int'', ''long'', ''double'', ''float'', ''boolean'', ''String'',
     ''const'', ''let'', ''var'', ''function'', ''async'', ''await'', ''try'', ''catch'', ''throw'']"

text \<open>\<open>[\s\S]\<close>: any character, line terminators included.\<close>

definition any_char :: regex where
  "any_char = Class False [Space, NonSpace]"

text \<open>\<open>new RegExp(`\\b(${keyword})\\b`, 'g')\<close>\<close>

definition keyword_regex :: "string \<Rightarrow> regex" where
  "keyword_regex keyword = seq [WordB, Grp 1 (Lit keyword), WordB]"

text \<open>\<open>/\/\*([\s\S]*?)\*\//g\<close>, used for the C-family and for the style languages.\<close>

definition block_comment_regex :: regex where
  "block_comment_regex = seq [Lit ''/*'', Grp 1 (star_lazy any_char), Lit ''*/'']"

text \<open>
  \<open>highlightCode(code, lang)\<close>; an absent \<open>lang\<close> (\<open>undefined\<close>) is \<open>None\<close>. The
  comparisons of \<open>lang\<close> are \<open>===\<close> on strings.
\<close>

definition highlightCode :: "string \<Rightarrow> string option \<Rightarrow> string" where
  \<open>highlightCode code lang =
    (let highlighted = escapeHtml code in
     if lang = Some ''java'' \<or> lang = Some ''javascript'' \<or> lang = Some ''typescript''
        \<or> lang = Some ''js'' \<or> lang = Some ''ts'' then
       (let highlighted =
              fold (\<lambda>keyword h. replace fl_g (keyword_regex keyword)
                                   [T ''<span class="keyword">'', G 1, T ''</span>''] h)
                keywords_list highlighted;
            highlighted = replace fl_g (seq [Lit ''@'', Grp 1 (plus1 (Class False [Word]))])
                            [T ''<span class="keyword">@'', G 1, T ''</span>''] highlighted;
            highlighted = replace fl_g
                            (seq [Lit ''"'', Grp 1 (star (Class True [Chr (CHR ''"'')])), Lit ''"''])
                            [T ''<span class="string">"'', G 1, T ''"</span>''] highlighted;
            highlighted = replace fl_g
                            (seq [Lit [CHR 0x27], Grp 1 (star (Class True [Chr (CHR 0x27)])),
                                  Lit [CHR 0x27]])
                            [T (''<span class="string">'' @ [CHR 0x27]), G 1,
                             T (CHR 0x27 # ''</span>'')] highlighted;
            highlighted = replace fl_g
                            (seq [WordB,
                                  Grp 1 (seq [plus1 (Class False [Digit]), opt (Lit ''.''),
                                              star (Class False [Digit])]),
                                  WordB])
                            [T ''<span class="number">'', G 1, T ''</span>''] highlighted;
            highlighted = replace fl_gm (seq [Lit ''//'', Grp 1 (star_lazy Dot), Eol])
                            [T ''<span class="comment">//'', G 1, T ''</span>''] highlighted;
            highlighted = replace fl_g block_comment_regex
                            [T ''<span class="comment">/*'', G 1, T ''*/</span>''] highlighted;
            highlighted = replace fl_g
                            (seq [WordB,
                                  Grp 1 (seq [Class False [Range (CHR ''A'') (CHR ''Z'')],
                                              plus1 (Class False [Word])]),
                                  WordB])
                            [T ''<span class="class">'', G 1, T ''</span>''] highlighted
        in highlighted)
     else if lang = Some ''css'' \<or> lang = Some ''scss'' then
       (let highlighted = replace fl_g
                            (seq [Grp 1 (plus1 (Class False [Range (CHR ''a'') (CHR ''z''), Chr (CHR ''-'')])),
                                  Lit '':''])
                            [T ''<span class="property">'', G 1, T ''</span>:''] highlighted;
            highlighted = replace fl_g
                            (seq [Lit '':'', Grp 1 (plus1 (Class True [Chr (CHR '';''), Chr (CHR ''{'')]))])
                            [T '': <span class="string">'', G 1, T ''</span>''] highlighted;
            highlighted = replace fl_gm
                            (seq [Bol,
                                  Grp 1 (seq [opt (Class False [Chr (CHR ''.''), Chr (CHR ''#'')]),
                                              plus1 (Class False [Word, Chr (CHR ''-'')])]),
                                  opt (Grp 2 (seq [star (Class False [Space]), Lit ''{'']))])
                            [T ''<span class="class">'', G 1, T ''</span>'', G 2] highlighted;
            highlighted = replace fl_g
                            (seq [Grp 1 (plus1 (Class False [Digit])),
                                  opt (Grp 2 (Alt (Lit ''px'') (Alt (Lit ''em'') (Alt (Lit ''rem'')
                                         (Alt (Lit ''%'') (Alt (Lit ''vh'') (Lit ''vw'')))))))])
                            [T ''<span class="number">'', G 1, G 2, T ''</span>''] highlighted;
            highlighted = replace fl_g block_comment_regex
                            [T ''<span class="comment">/*'', G 1, T ''*/</span>''] highlighted
        in highlighted)
     else if lang = Some ''html'' \<or> lang = Some ''xml'' then
       (let highlighted = replace fl_g
                            (seq [Lit ''&lt;'',
                                  Grp 1 (seq [opt (Lit ''/''), plus1 (Class False [Word, Chr (CHR ''-'')])])])
                            [T ''&lt;<span class="keyword">'', G 1, T ''</span>''] highlighted;
            highlighted = replace fl_g (seq [Grp 1 (plus1 (Class False [Word])), Lit ''=''])
                            [T ''<span class="property">'', G 1, T ''</span>=''] highlighted;
            highlighted = replace fl_g
                            (seq [Lit ''="'', Grp 1 (star (Class True [Chr (CHR ''"'')])), Lit ''"''])
                            [T ''=<span class="string">"'', G 1, T ''"</span>''] highlighted
        in highlighted)
     else highlighted)\<close>

section \<open>The guide viewer: markdown renderer\<close>

text \<open>
  \<open>renderMarkdown\<close> is a chain of assignments \<open>html = html.replace(...)\<close>. Each group of
  assignments under one comment of the source is a pass here, in the source's order.
\<close>

text \<open>\<open>/^### (.*$)/gim\<close> and its like: a marker at the start of a line, the rest of the line captured.\<close>

definition line_regex :: "regex \<Rightarrow> regex" where
  "line_regex marker = seq [Bol, marker, Grp 1 (seq [star Dot, Eol])]"

definition md_headers :: "string \<Rightarrow> string" where
  "md_headers html =
     (let html = replace fl_gim (line_regex (Lit ''### '')) [T ''<h3>'', G 1, T ''</h3>''] html;
          html = replace fl_gim (line_regex (Lit ''## '')) [T ''<h2>'', G 1, T ''</h2>''] html;
          html = replace fl_gim (line_regex (Lit ''# '')) [T ''<h1>'', G 1, T ''</h1>''] html
      in html)"

definition md_bold :: "string \<Rightarrow> string" where
  "md_bold html =
     replace fl_gim (seq [Lit ''**'', Grp 1 (star_lazy Dot), Lit ''**''])
       [T ''<strong>'', G 1, T ''</strong>''] html"

definition md_italic :: "string \<Rightarrow> string" where
  "md_italic html =
     replace fl_gim (seq [Lit ''*'', Grp 1 (star_lazy Dot), Lit ''*'']) [T ''<em>'', G 1, T ''</em>''] html"

text \<open>\<open>/```(\w+)?\n([\s\S]*?)```/gim\<close>\<close>

definition fence_regex :: regex where
  \<open>fence_regex =
     seq [Lit ''```'', opt (Grp 1 (plus1 (Class False [Word]))), Lit ''\<newline>'',
          Grp 2 (star_lazy any_char), Lit ''```'']\<close>

text \<open>
  The replacer \<open>(match, lang, code) => ...\<close> of the fenced code blocks. \<open>code.trim()\<close>
  is a method call on the second capture: it throws a \<open>TypeError\<close> on \<open>undefined\<close>.
  \<open>lang || 'text'\<close> takes \<open>'text'\<close> for an absent or empty tag.
\<close>

definition code_block :: "(nat \<times> string) list \<Rightarrow> error + string" where
  \<open>code_block c =
     (let lang = map_of c 1 in
      case map_of c 2 of
        None \<Rightarrow> Inl TypeError
      | Some code \<Rightarrow>
          (let highlightedCode = highlightCode (trim code) lang in
           Inr (''<div class="code-wrapper"><pre><code class="language-''
                @ (case lang of None \<Rightarrow> ''text'' | Some l \<Rightarrow> if l = [] then ''text'' else l)
                @ ''">'' @ highlightedCode @ ''</code></pre></div>'')))\<close>

definition md_code_blocks :: "string \<Rightarrow> error + string" where
  "md_code_blocks html = replace_fn fl_gim fence_regex code_block html"

definition md_inline_code :: "string \<Rightarrow> string" where
  \<open>md_inline_code html =
     replace fl_gim (seq [Lit ''`'', Grp 1 (plus1 (Class True [Chr (CHR 0x60)])), Lit ''`''])
       [T ''<code>'', G 1, T ''</code>''] html\<close>

definition md_links :: "string \<Rightarrow> string" where
  \<open>md_links html =
     replace fl_gim
       (seq [Lit ''['', Grp 1 (plus1 (Class True [Chr (CHR '']'')])), Lit '']('',
             Grp 2 (plus1 (Class True [Chr (CHR '')'')])), Lit '')''])
       [T ''<a href="'', G 2, T ''" target="_blank">'', G 1, T ''</a>''] html\<close>

definition md_ul_items :: "string \<Rightarrow> string" where
  "md_ul_items html = replace fl_gim (line_regex (Lit ''- '')) [T ''<li>'', G 1, T ''</li>''] html"

text \<open>\<open>/(<li>.*<\/li>)/s\<close>: no \<open>g\<close> flag, and \<open>.\<close> matches line terminators.\<close>

definition md_ul_wrap :: "string \<Rightarrow> string" where
  "md_ul_wrap html =
     replace fl_s (Grp 1 (seq [Lit ''<li>'', star Dot, Lit ''</li>''])) [T ''<ul>'', G 1, T ''</ul>''] html"

definition md_ol_items :: "string \<Rightarrow> string" where
  "md_ol_items html =
     replace fl_gim (line_regex (seq [plus1 (Class False [Digit]), Lit ''. '']))
       [T ''<li>'', G 1, T ''</li>''] html"

definition md_hr :: "string \<Rightarrow> string" where
  "md_hr html = replace fl_gim (seq [Bol, Lit ''---'', Eol]) [T ''<hr>''] html"

definition md_paragraphs :: "string \<Rightarrow> string" where
  \<open>md_paragraphs html =
     (let html = replace fl_gim (Lit ''\<newline>\<newline>'') [T ''</p><p>''] html;
          html = ''<p>'' @ html @ ''</p>''
      in html)\<close>

text \<open>\<open>[1-6]\<close>\<close>

definition h16 :: regex where
  "h16 = Class False [Range (CHR ''1'') (CHR ''6'')]"

definition md_cleanup :: "string \<Rightarrow> string" where
  \<open>md_cleanup html =
     (let html = replace fl_gim (Lit ''<p></p>'') [] html;
          html = replace fl_gim (seq [Lit ''<p>'', Grp 1 (seq [Lit ''<h'', h16, Lit ''>''])]) [G 1] html;
          html = replace fl_gim (seq [Grp 1 (seq [Lit ''</h'', h16, Lit ''>'']), Lit ''</p>'']) [G 1] html;
          html = replace fl_gim (seq [Lit ''<p>'', Grp 1 (Lit ''<ul>'')]) [G 1] html;
          html = replace fl_gim (seq [Grp 1 (Lit ''</ul>''), Lit ''</p>'']) [G 1] html;
          html = replace fl_gim (seq [Lit ''<p>'', Grp 1 (Lit ''<div class="code-wrapper">'')]) [G 1] html;
          html = replace fl_gim (seq [Grp 1 (Lit ''</div>''), Lit ''</p>'']) [G 1] html;
          html = replace fl_gim (seq [Lit ''<p>'', Grp 1 (Lit ''<hr>''), Lit ''</p>'']) [G 1] html
      in html)\<close>

definition renderMarkdown :: "string \<Rightarrow> error + string" where
  "renderMarkdown markdown =
     (let html = markdown;
          html = md_headers html;
          html = md_bold html;
          html = md_italic html
      in case md_code_blocks html of
           Inl e \<Rightarrow> Inl e
         | Inr html \<Rightarrow>
             (let html = md_inline_code html;
                  html = md_links html;
                  html = md_ul_items html;
                  html = md_ul_wrap html;
                  html = md_ol_items html;
                  html = md_hr html;
                  html = md_paragraphs html;
                  html = md_cleanup html
              in Inr html))"

section \<open>The guide catalog\<close>

datatype GuideCategory = ARCHITECTURE | ENVIRONMENT | BACKEND | FRONTEND | TESTS
  | SONARQUBE | DOCKER | CICD | DEPLOYMENT | MONITORING

text \<open>
  The interface \<open>Guide\<close>. The field \<open>id\<close> is \<open>id_guide\<close> here. \<open>order\<close> holds integers
  in the catalog and is an \<open>int\<close>; \<open>lastUpdated\<close> (a \<open>Date\<close>) is a time stamp. The
  optional \<open>isViewed\<close> is \<open>None\<close> while it is unset.
\<close>

record Guide =
  id_guide :: string
  title :: string
  category :: GuideCategory
  content :: string
  tags :: "string list"
  order :: int
  icon :: string
  color :: string
  lastUpdated :: int
  isViewed :: "bool option"

text \<open>
  \<open>GuideService\<close> holds the catalog in a \<open>BehaviorSubject\<close>; its state is the current
  value of the subject. The constructor fills it with a fixed list of guides; the
  statements below are about every catalog.
\<close>

record GuideService =
  guidesSubject :: "Guide list"

text \<open>\<open>String.prototype.toLowerCase\<close> on the code units up to \<open>0xFF\<close>.\<close>

definition toLowerChar :: "char \<Rightarrow> char" where
  "toLowerChar c =
     (if (CHR ''A'' \<le> c \<and> c \<le> CHR ''Z'') \<or> (CHR 0xC0 \<le> c \<and> c \<le> CHR 0xDE \<and> c \<noteq> CHR 0xD7)
      then char_of (of_char c + (32::nat)) else c)"

definition toLowerCase :: "string \<Rightarrow> string" where
  "toLowerCase s = map toLowerChar s"

definition getGuides :: "GuideService \<Rightarrow> Guide list" where
  "getGuides svc = guidesSubject svc"

definition getGuideById :: "string \<Rightarrow> GuideService \<Rightarrow> Guide option" where
  "getGuideById i svc = find (\<lambda>g. id_guide g = i) (guidesSubject svc)"

text \<open>
  \<open>filter\<close> builds a new array and \<open>sort\<close> sorts that array in place: the catalog itself
  is not reordered. \<open>Array.prototype.sort\<close> is stable, and the comparator
  \<open>a.order - b.order\<close> orders by \<open>order\<close>, ascending.
\<close>

definition getGuidesByCategory :: "GuideCategory \<Rightarrow> GuideService \<Rightarrow> Guide list" where
  "getGuidesByCategory c svc =
     sort_key order (filter (\<lambda>g. category g = c) (guidesSubject svc))"

definition searchGuides :: "string \<Rightarrow> GuideService \<Rightarrow> Guide list" where
  "searchGuides query svc =
     (let lowerQuery = toLowerCase query in
      filter (\<lambda>guide. includes_str (toLowerCase (title guide)) lowerQuery
                \<or> includes_str (toLowerCase (content guide)) lowerQuery
                \<or> list_ex (\<lambda>tag. includes_str (toLowerCase tag) lowerQuery) (tags guide))
        (guidesSubject svc))"

definition markAsViewed :: "string \<Rightarrow> GuideService \<Rightarrow> GuideService" where
  "markAsViewed i svc =
     svc\<lparr>guidesSubject :=
       map (\<lambda>guide. if id_guide guide = i then guide\<lparr>isViewed := Some True\<rparr> else guide)
         (guidesSubject svc)\<rparr>"

text \<open>
  The public operations of the service, and what a call returns together with the
  state it leaves.
\<close>

datatype operation =
    GetGuides
  | GetGuideById string
  | GetGuidesByCategory GuideCategory
  | SearchGuides string
  | MarkAsViewed string

datatype outcome = Guides "Guide list" | Found "Guide option" | Done

fun call :: "operation \<Rightarrow> GuideService \<Rightarrow> outcome \<times> GuideService" where
  "call GetGuides svc = (Guides (getGuides svc), svc)"
| "call (GetGuideById i) svc = (Found (getGuideById i svc), svc)"
| "call (GetGuidesByCategory c) svc = (Guides (getGuidesByCategory c svc), svc)"
| "call (SearchGuides q) svc = (Guides (searchGuides q svc), svc)"
| "call (MarkAsViewed i) svc = (Done, markAsViewed i svc)"

fun run :: "operation list \<Rightarrow> GuideService \<Rightarrow> GuideService" where
  "run [] svc = svc"
| "run (op # ops) svc = run ops (snd (call op svc))"

text \<open>
  A small catalog for the worked examples: two guides of the category \<open>BACKEND\<close>, stored
  against their \<open>order\<close>, and a guide of another category that has been viewed.
\<close>

definition catalog0 :: GuideService where
  "catalog0 = \<lparr>guidesSubject =
     [\<lparr>id_guide = ''b'', title = ''B'', category = BACKEND, content = ''# B'', tags = [''x''],
        order = 2, icon = ''storage'', color = ''#10b981'', lastUpdated = 0, isViewed = None\<rparr>,
      \<lparr>id_guide = ''f'', title = ''F'', category = FRONTEND, content = ''# F'', tags = [],
        order = 1, icon = ''web'', color = ''#3b82f6'', lastUpdated = 0, isViewed = Some True\<rparr>,
      \<lparr>id_guide = ''a'', title = ''A'', category = BACKEND, content = ''# A'', tags = [],
        order = 1, icon = ''storage'', color = ''#10b981'', lastUpdated = 0, isViewed = None\<rparr>]\<rparr>"

section \<open>Evaluation\<close>

text \<open>
  The definitions above are written with \<open>if\<close> and \<open>case\<close>. To run them on concrete
  strings by rewriting, each choice is moved into an argument of an auxiliary function
  that is defined by pattern matching; the lemmas \<open>matcher_code\<close>, \<open>replace_from_code\<close>
  and \<open>replace_fn_from_code\<close> below prove these equations from the definitions.
\<close>

definition chk :: "bool \<Rightarrow> flags \<Rightarrow> frame list \<Rightarrow> mstate \<Rightarrow> mstate option" where
  "chk b f k s = (if b then matcher f k s else None)"

definition orelse :: "mstate option \<Rightarrow> flags \<Rightarrow> frame list \<Rightarrow> mstate \<Rightarrow> mstate option" where
  "orelse z f k s = (case z of Some y \<Rightarrow> Some y | None \<Rightarrow> matcher f k s)"

datatype rep_mode = RDone | RMust | RGreedy | RLazy

definition rep_mode_of :: "bool \<Rightarrow> nat \<Rightarrow> nat option \<Rightarrow> rep_mode" where
  "rep_mode_of g lo hi =
     (if hi = Some 0 then RDone else if 0 < lo then RMust else if g then RGreedy else RLazy)"

fun rep_step ::
  "rep_mode \<Rightarrow> flags \<Rightarrow> bool \<Rightarrow> nat \<Rightarrow> nat option \<Rightarrow> regex \<Rightarrow> frame list \<Rightarrow> mstate \<Rightarrow> mstate option"
where
  "rep_step RDone f g lo hi r k s = matcher f k s"
| "rep_step RMust f g lo hi r k s =
     matcher f (R r # R (Rep g (lo - 1) (dec hi) r) # k) (reset r s)"
| "rep_step RGreedy f g lo hi r k s =
     orelse (matcher f (R r # Prog (length (rest s)) # R (Rep g 0 (dec hi) r) # k) (reset r s)) f k s"
| "rep_step RLazy f g lo hi r k s =
     orelse (matcher f k s) f (R r # Prog (length (rest s)) # R (Rep g 0 (dec hi) r) # k) (reset r s)"

fun step_lit :: "string \<Rightarrow> flags \<Rightarrow> char \<Rightarrow> string \<Rightarrow> frame list \<Rightarrow> mstate \<Rightarrow> mstate option" where
  "step_lit [] f a as k s = None"
| "step_lit (x # xs) f a as k s = chk (char_eq f a x) f (R (Lit as) # k) (MState (Some x) xs (caps s))"

fun step_dot :: "string \<Rightarrow> flags \<Rightarrow> frame list \<Rightarrow> mstate \<Rightarrow> mstate option" where
  "step_dot [] f k s = None"
| "step_dot (x # xs) f k s = chk (fs f \<or> \<not> is_line_terminator x) f k (MState (Some x) xs (caps s))"

fun step_class ::
  "string \<Rightarrow> flags \<Rightarrow> bool \<Rightarrow> class_item list \<Rightarrow> frame list \<Rightarrow> mstate \<Rightarrow> mstate option"
where
  "step_class [] f neg items k s = None"
| "step_class (x # xs) f neg items k s =
     chk (in_class f items x \<noteq> neg) f k (MState (Some x) xs (caps s))"

fun after_match :: "bool \<Rightarrow> nat \<Rightarrow> flags \<Rightarrow> regex \<Rightarrow> rpart list \<Rightarrow> string \<Rightarrow> string" where
  "after_match False n f r tmpl cs = drop n cs"
| "after_match True 0 f r tmpl [] = []"
| "after_match True 0 f r tmpl (c # cs) = c # replace_from f r tmpl (Some c) cs"
| "after_match True (Suc n) f r tmpl cs =
     replace_from f r tmpl (Some (last (take (Suc n) cs))) (drop (Suc n) cs)"

fun on_result :: "mstate option \<Rightarrow> flags \<Rightarrow> regex \<Rightarrow> rpart list \<Rightarrow> string \<Rightarrow> string" where
  "on_result None f r tmpl [] = []"
| "on_result None f r tmpl (c # cs) = c # replace_from f r tmpl (Some c) cs"
| "on_result (Some s) f r tmpl cs =
     expand tmpl (caps s) @ after_match (fg f) (length cs - length (rest s)) f r tmpl cs"

fun prepend :: "string \<Rightarrow> error + string \<Rightarrow> error + string" where
  "prepend xs (Inl e) = Inl e"
| "prepend xs (Inr t) = Inr (xs @ t)"

fun after_match_fn ::
  "error + string \<Rightarrow> bool \<Rightarrow> nat \<Rightarrow> flags \<Rightarrow> regex \<Rightarrow> ((nat \<times> string) list \<Rightarrow> error + string)
    \<Rightarrow> string \<Rightarrow> error + string"
where
  "after_match_fn (Inl e) g n f r cb cs = Inl e"
| "after_match_fn (Inr out) False n f r cb cs = Inr (out @ drop n cs)"
| "after_match_fn (Inr out) True 0 f r cb [] = Inr out"
| "after_match_fn (Inr out) True 0 f r cb (c # cs) =
     prepend (out @ [c]) (replace_fn_from f r cb (Some c) cs)"
| "after_match_fn (Inr out) True (Suc n) f r cb cs =
     prepend out (replace_fn_from f r cb (Some (last (take (Suc n) cs))) (drop (Suc n) cs))"

fun on_result_fn ::
  "mstate option \<Rightarrow> flags \<Rightarrow> regex \<Rightarrow> ((nat \<times> string) list \<Rightarrow> error + string) \<Rightarrow> string
    \<Rightarrow> error + string"
where
  "on_result_fn None f r cb [] = Inr []"
| "on_result_fn None f r cb (c # cs) = prepend [c] (replace_fn_from f r cb (Some c) cs)"
| "on_result_fn (Some s) f r cb cs =
     after_match_fn (cb (caps s)) (fg f) (length cs - length (rest s)) f r cb cs"

section \<open>Notions used in the statements and proofs\<close>

text \<open>
  \<open>li_outside 0 html\<close> reads the specification's words "an \<open><li>\<close> element outside any
  \<open><ul>\<close> element": scanning the text with the number of \<open><ul>\<close> elements that are open,
  some \<open><li>\<close> starts while none is open.
\<close>

fun li_outside :: "nat \<Rightarrow> string \<Rightarrow> bool" where
  "li_outside d [] = False"
| "li_outside d (c # cs) =
     (if starts_with (c # cs) ''<ul>'' then li_outside (Suc d) cs
      else if starts_with (c # cs) ''</ul>'' then li_outside (d - 1) cs
      else if starts_with (c # cs) ''<li>'' \<and> d = 0 then True
      else li_outside d cs)"

text \<open>
  A frame leaves the capture \<open>n\<close> alone when it neither closes the group \<open>n\<close> nor holds
  it. \<open>tail_of k2 k\<close>: the stack \<open>k2\<close> is what is left of \<open>k\<close> after some frames.
\<close>

fun untouched :: "nat \<Rightarrow> frame \<Rightarrow> bool" where
  "untouched n (R r) = (n \<notin> set (groups r))"
| "untouched n (Close g st) = (g \<noteq> n)"
| "untouched n (Prog p) = True"

fun tail_of :: "frame list \<Rightarrow> frame list \<Rightarrow> bool" where
  "tail_of k2 [] = (k2 = [])"
| "tail_of k2 (fr # k) = (k2 = fr # k \<or> tail_of k2 k)"

text \<open>
  A literal whose comparison does not depend on the \<open>i\<close> flag (it holds no letter), and
  the character before the position behind a consumed string.
\<close>

definition plain_lit :: "flags \<Rightarrow> string \<Rightarrow> bool" where
  "plain_lit f l = (fi f \<longrightarrow> set l \<inter> (set lowers \<union> set uppers) = {})"

fun after :: "char option \<Rightarrow> string \<Rightarrow> char option" where
  "after p [] = p"
| "after p (c # cs) = after (Some c) cs"

text \<open>
  A plain character is none of the characters that start a piece of markdown or HTML
  here, no digit and no white space; a plain word is a non-empty string of plain
  characters. \<open>plainfail f r\<close>: the expression \<open>r\<close> matches at no position that starts
  with a plain character.
\<close>

definition plain_char :: "char \<Rightarrow> bool" where
  \<open>plain_char c = (c \<notin> set ''#*`[-<>&'' \<and> \<not> is_digit c \<and> \<not> is_space c)\<close>

definition plain_word :: "string \<Rightarrow> bool" where
  "plain_word a = (a \<noteq> [] \<and> list_all plain_char a)"

definition plainfail :: "flags \<Rightarrow> regex \<Rightarrow> bool" where
  "plainfail f r = (\<forall>q c w. plain_char c \<longrightarrow> matcher f [R r] (MState q (c # w) []) = None)"





text \<open>
  The successful runs of the matcher, as a relation: \<open>mrun f k s z\<close> when some path of
  the frames \<open>k\<close> from the state \<open>s\<close> ends in \<open>z\<close>. Every result of \<open>matcher\<close> is such
  a run (\<open>matcher_run\<close>); the relation forgets the order in which the paths are tried.
\<close>

inductive mrun :: "flags \<Rightarrow> frame list \<Rightarrow> mstate \<Rightarrow> mstate \<Rightarrow> bool" where
  mrun_Nil: "mrun f [] s s"
| mrun_Prog: "length (rest s) < n \<Longrightarrow> mrun f k s z \<Longrightarrow> mrun f (Prog n # k) s z"
| mrun_Close: "mrun f k (setcap g (take (length st - length (rest s)) st) s) z \<Longrightarrow> mrun f (Close g st # k) s z"
| mrun_LitNil: "mrun f k s z \<Longrightarrow> mrun f (R (Lit []) # k) s z"
| mrun_LitCons: "rest s = c # cs \<Longrightarrow> char_eq f a c \<Longrightarrow> mrun f (R (Lit as) # k) (MState (Some c) cs (caps s)) z
     \<Longrightarrow> mrun f (R (Lit (a # as)) # k) s z"
| mrun_Dot: "rest s = c # cs \<Longrightarrow> fs f \<or> \<not> is_line_terminator c \<Longrightarrow> mrun f k (MState (Some c) cs (caps s)) z
     \<Longrightarrow> mrun f (R Dot # k) s z"
| mrun_Class: "rest s = c # cs \<Longrightarrow> in_class f items c \<noteq> neg \<Longrightarrow> mrun f k (MState (Some c) cs (caps s)) z
     \<Longrightarrow> mrun f (R (Class neg items) # k) s z"
| mrun_Seq: "mrun f (R a # R b # k) s z \<Longrightarrow> mrun f (R (Seq a b) # k) s z"
| mrun_AltL: "mrun f (R a # k) s z \<Longrightarrow> mrun f (R (Alt a b) # k) s z"
| mrun_AltR: "mrun f (R b # k) s z \<Longrightarrow> mrun f (R (Alt a b) # k) s z"
| mrun_RepEnd: "hi = Some 0 \<Longrightarrow> mrun f k s z \<Longrightarrow> mrun f (R (Rep g lo hi r) # k) s z"
| mrun_RepMin: "hi \<noteq> Some 0 \<Longrightarrow> 0 < lo \<Longrightarrow> mrun f (R r # R (Rep g (lo - 1) (dec hi) r) # k) (reset r s) z
     \<Longrightarrow> mrun f (R (Rep g lo hi r) # k) s z"
| mrun_RepIter: "hi \<noteq> Some 0 \<Longrightarrow> lo = 0
     \<Longrightarrow> mrun f (R r # Prog (length (rest s)) # R (Rep g 0 (dec hi) r) # k) (reset r s) z
     \<Longrightarrow> mrun f (R (Rep g lo hi r) # k) s z"
| mrun_RepSkip: "hi \<noteq> Some 0 \<Longrightarrow> lo = 0 \<Longrightarrow> mrun f k s z \<Longrightarrow> mrun f (R (Rep g lo hi r) # k) s z"
| mrun_Grp: "mrun f (R r # Close n (rest s) # k) s z \<Longrightarrow> mrun f (R (Grp n r) # k) s z"
| mrun_Bol: "at_bol f (prev s) \<Longrightarrow> mrun f k s z \<Longrightarrow> mrun f (R Bol # k) s z"
| mrun_Eol: "at_eol f (rest s) \<Longrightarrow> mrun f k s z \<Longrightarrow> mrun f (R Eol # k) s z"
| mrun_WordB: "word_before (prev s) \<noteq> word_after (rest s) \<Longrightarrow> mrun f k s z \<Longrightarrow> mrun f (R WordB # k) s z"

text \<open>
  Markup in which every \<open><\<close> starts a tag of the highlighter, \<open><span ...>\<close> or
  \<open></span>\<close>. An expression that can consume a \<open><\<close>; a lower bound of the length of
  a match; a frame that has consumed no \<open><\<close> since its group was opened.
\<close>

fun span_markup :: "string \<Rightarrow> bool" where
  "span_markup [] = True"
| "span_markup (c # cs) =
     ((c = CHR ''<'' \<longrightarrow> starts_with cs ''span '' \<or> starts_with cs ''/span>'') \<and> span_markup cs)"

fun eats_lt :: "flags \<Rightarrow> regex \<Rightarrow> bool" where
  "eats_lt f (Lit l) = (CHR ''<'' \<in> set l)"
| "eats_lt f Dot = True"
| "eats_lt f (Class neg items) = (in_class f items (CHR ''<'') \<noteq> neg)"
| "eats_lt f (Seq a b) = (eats_lt f a \<or> eats_lt f b)"
| "eats_lt f (Alt a b) = (eats_lt f a \<or> eats_lt f b)"
| "eats_lt f (Rep g lo hi r) = eats_lt f r"
| "eats_lt f (Grp n r) = eats_lt f r"
| "eats_lt f Bol = False"
| "eats_lt f Eol = False"
| "eats_lt f WordB = False"



fun frame_no_lt :: "flags \<Rightarrow> string \<Rightarrow> frame \<Rightarrow> bool" where
  "frame_no_lt f cs (R r) = (\<not> eats_lt f r)"
| "frame_no_lt f cs (Close g st) = (\<exists>x. st = x @ cs \<and> CHR ''<'' \<notin> set x)"
| "frame_no_lt f cs (Prog n) = True"

definition caps_no_lt :: "mstate \<Rightarrow> bool" where
  "caps_no_lt s = (\<forall>(g, v) \<in> set (caps s). CHR ''<'' \<notin> set v)"

section \<open>Evaluation rules\<close>





lemma chk_code [code]:
  "chk True f k s = matcher f k s"
  "chk False f k s = None"
  by (simp_all add: chk_def)

lemma orelse_code [code]:
  "orelse (Some y) f k s = Some y"
  "orelse None f k s = matcher f k s"
  by (simp_all add: orelse_def)

lemma matcher_code [code]:
  "matcher f [] s = Some s"
  "matcher f (Prog n # k) s = chk (length (rest s) < n) f k s"
  "matcher f (Close g st # k) s = matcher f k (setcap g (take (length st - length (rest s)) st) s)"
  "matcher f (R (Lit []) # k) s = matcher f k s"
  "matcher f (R (Lit (a # as)) # k) s = step_lit (rest s) f a as k s"
  "matcher f (R Dot # k) s = step_dot (rest s) f k s"
  "matcher f (R (Class neg items) # k) s = step_class (rest s) f neg items k s"
  "matcher f (R (Seq r1 r2) # k) s = matcher f (R r1 # R r2 # k) s"
  "matcher f (R (Alt r1 r2) # k) s = orelse (matcher f (R r1 # k) s) f (R r2 # k) s"
  "matcher f (R (Rep gr lo hi r) # k) s = rep_step (rep_mode_of gr lo hi) f gr lo hi r k s"
  "matcher f (R (Grp n r) # k) s = matcher f (R r # Close n (rest s) # k) s"
  "matcher f (R Bol # k) s = chk (at_bol f (prev s)) f k s"
  "matcher f (R Eol # k) s = chk (at_eol f (rest s)) f k s"
  "matcher f (R WordB # k) s = chk (word_before (prev s) \<noteq> word_after (rest s)) f k s"
  by (auto simp: chk_def orelse_def rep_mode_of_def split: list.splits option.splits)

declare replace_from.simps [simp del]

declare replace_fn_from.simps [simp del]

lemma replace_from_code [code]:
  "replace_from f r tmpl p cs = on_result (matcher f [R r] (MState p cs [])) f r tmpl cs"
proof (cases "matcher f [R r] (MState p cs [])")
  case None
  then show ?thesis
    by (subst replace_from.simps) (cases cs; simp)
next
  case (Some s)
  then show ?thesis
    by (subst replace_from.simps)
       (cases "fg f"; cases "length cs - length (rest s)"; cases cs; simp)
qed

lemma replace_fn_from_code [code]:
  "replace_fn_from f r cb p cs = on_result_fn (matcher f [R r] (MState p cs [])) f r cb cs"
proof (cases "matcher f [R r] (MState p cs [])")
  case None
  then show ?thesis
    by (subst replace_fn_from.simps) (cases cs; simp split: sum.splits)
next
  case (Some s)
  then show ?thesis
    by (subst replace_fn_from.simps)
       (cases "cb (caps s)"; cases "fg f"; cases "length cs - length (rest s)"; cases cs;
        simp split: sum.splits)
qed

section \<open>Properties of the matcher\<close>

text \<open>A successful run of a stack of frames ends with a successful run of each of its tails.\<close>

lemma matcher_tail:
  "matcher f k s = Some z \<Longrightarrow> tail_of k2 k \<Longrightarrow> \<exists>s'. matcher f k2 s' = Some z"
proof (induction f k s rule: matcher.induct)
  case (1 f s)
  then show ?case by auto
next
  case (2 f n k s)
  show ?case
  proof (cases "k2 = Prog n # k")
    case True
    with "2.prems" show ?thesis by blast
  next
    case False
    with "2.prems" have "length (rest s) < n" "matcher f k s = Some z" "tail_of k2 k"
      by (auto split: if_splits)
    then show ?thesis by (rule "2.IH")
  qed
next
  case (3 f g st k s)
  show ?case
  proof (cases "k2 = Close g st # k")
    case True
    with "3.prems" show ?thesis by blast
  next
    case False
    with "3.prems" have "matcher f k (setcap g (take (length st - length (rest s)) st) s) = Some z"
      "tail_of k2 k"
      by auto
    then show ?thesis by (rule "3.IH")
  qed
next
  case (4 f k s)
  show ?case
  proof (cases "k2 = R (Lit []) # k")
    case True
    with "4.prems" show ?thesis by blast
  next
    case False
    with "4.prems" have "matcher f k s = Some z" "tail_of k2 k"
      by auto
    then show ?thesis by (rule "4.IH")
  qed
next
  case (5 f a as k s)
  show ?case
  proof (cases "k2 = R (Lit (a # as)) # k")
    case True
    with "5.prems" show ?thesis by blast
  next
    case False
    from "5.prems"(1) obtain c cs where r: "rest s = c # cs" "char_eq f a c"
      "matcher f (R (Lit as) # k) (MState (Some c) cs (caps s)) = Some z"
      by (auto split: if_splits list.splits)
    from False "5.prems"(2) have "tail_of k2 (R (Lit as) # k)"
      by simp
    with r show ?thesis by (rule "5.IH")
  qed
next
  case (6 f k s)
  show ?case
  proof (cases "k2 = R Dot # k")
    case True
    with "6.prems" show ?thesis by blast
  next
    case False
    from "6.prems"(1) obtain c cs where r: "rest s = c # cs" "fs f \<or> \<not> is_line_terminator c"
      "matcher f k (MState (Some c) cs (caps s)) = Some z"
      by (auto split: if_splits list.splits)
    from False "6.prems"(2) have "tail_of k2 k"
      by simp
    with r show ?thesis by (rule "6.IH")
  qed
next
  case (7 f neg items k s)
  show ?case
  proof (cases "k2 = R (Class neg items) # k")
    case True
    with "7.prems" show ?thesis by blast
  next
    case False
    from "7.prems"(1) obtain c cs where r: "rest s = c # cs" "in_class f items c \<noteq> neg"
      "matcher f k (MState (Some c) cs (caps s)) = Some z"
      by (auto split: if_splits list.splits)
    from False "7.prems"(2) have "tail_of k2 k"
      by simp
    with r show ?thesis by (rule "7.IH")
  qed
next
  case (8 f a b k s)
  show ?case
  proof (cases "k2 = R (Seq a b) # k")
    case True
    with "8.prems" show ?thesis by blast
  next
    case False
    with "8.prems" have "matcher f (R a # R b # k) s = Some z" "tail_of k2 (R a # R b # k)"
      by auto
    then show ?thesis by (rule "8.IH")
  qed
next
  case (9 f a b k s)
  show ?case
  proof (cases "k2 = R (Alt a b) # k")
    case True
    with "9.prems" show ?thesis by blast
  next
    case False
    with "9.prems"(2) have t: "tail_of k2 (R a # k)" "tail_of k2 (R b # k)"
      by auto
    show ?thesis
    proof (cases "matcher f (R a # k) s")
      case None
      with "9.prems"(1) have "matcher f (R b # k) s = Some z" by simp
      with None show ?thesis using t(2) by (rule "9.IH"(2))
    next
      case (Some y)
      with "9.prems"(1) have "matcher f (R a # k) s = Some z" by simp
      then show ?thesis using t(1) by (rule "9.IH"(1))
    qed
  qed
next
  case (10 f g lo hi r k s)
  show ?case
  proof (cases "k2 = R (Rep g lo hi r) # k")
    case True
    with "10.prems" show ?thesis by blast
  next
    case False
    with "10.prems"(2) have t: "tail_of k2 k"
      "tail_of k2 (R r # R (Rep g (lo - 1) (dec hi) r) # k)"
      "tail_of k2 (R r # Prog (length (rest s)) # R (Rep g 0 (dec hi) r) # k)"
      by auto
    let ?it = "matcher f (R r # Prog (length (rest s)) # R (Rep g 0 (dec hi) r) # k) (reset r s)"
    consider (fin) "hi = Some 0" "matcher f k s = Some z"
      | (must) "hi \<noteq> Some 0" "0 < lo"
          "matcher f (R r # R (Rep g (lo - 1) (dec hi) r) # k) (reset r s) = Some z"
      | (greedy_it) "hi \<noteq> Some 0" "\<not> 0 < lo" "g" "?it = Some z"
      | (greedy_skip) "hi \<noteq> Some 0" "\<not> 0 < lo" "g" "?it = None" "matcher f k s = Some z"
      | (lazy_skip) "hi \<noteq> Some 0" "\<not> 0 < lo" "\<not> g" "matcher f k s = Some z"
      | (lazy_it) "hi \<noteq> Some 0" "\<not> 0 < lo" "\<not> g" "matcher f k s = None" "?it = Some z"
      using "10.prems"(1) by (auto split: if_splits option.splits)
    then show ?thesis
    proof cases
      case fin
      then show ?thesis using t(1) by (rule "10.IH"(1))
    next
      case must
      then show ?thesis using t(2) by (rule "10.IH"(2))
    next
      case greedy_it
      then show ?thesis using t(3) by (rule "10.IH"(3))
    next
      case greedy_skip
      then show ?thesis using t(1) by (rule "10.IH"(4))
    next
      case lazy_skip
      then show ?thesis using t(1) by (rule "10.IH"(5))
    next
      case lazy_it
      then show ?thesis using t(3) by (rule "10.IH"(6))
    qed
  qed
next
  case (11 f n r k s)
  show ?case
  proof (cases "k2 = R (Grp n r) # k")
    case True
    with "11.prems" show ?thesis by blast
  next
    case False
    with "11.prems" have "matcher f (R r # Close n (rest s) # k) s = Some z"
      "tail_of k2 (R r # Close n (rest s) # k)"
      by auto
    then show ?thesis by (rule "11.IH")
  qed
next
  case (12 f k s)
  show ?case
  proof (cases "k2 = R Bol # k")
    case True
    with "12.prems" show ?thesis by blast
  next
    case False
    with "12.prems" have "at_bol f (prev s)" "matcher f k s = Some z" "tail_of k2 k"
      by (auto split: if_splits)
    then show ?thesis by (rule "12.IH")
  qed
next
  case (13 f k s)
  show ?case
  proof (cases "k2 = R Eol # k")
    case True
    with "13.prems" show ?thesis by blast
  next
    case False
    with "13.prems" have "at_eol f (rest s)" "matcher f k s = Some z" "tail_of k2 k"
      by (auto split: if_splits)
    then show ?thesis by (rule "13.IH")
  qed
next
  case (14 f k s)
  show ?case
  proof (cases "k2 = R WordB # k")
    case True
    with "14.prems" show ?thesis by blast
  next
    case False
    with "14.prems" have "word_before (prev s) \<noteq> word_after (rest s)" "matcher f k s = Some z"
      "tail_of k2 k"
      by (auto split: if_splits)
    then show ?thesis by (rule "14.IH")
  qed
qed

lemma map_of_filter_key:
  "map_of (filter (\<lambda>(k, v). P k) xs) n = (if P n then map_of xs n else None)"
  by (induction xs) auto

lemma caps_setcap_other: "g \<noteq> n \<Longrightarrow> map_of (caps (setcap g v s)) n = map_of (caps s) n"
  by (simp add: setcap_def map_of_filter_key)

lemma caps_setcap_same: "map_of (caps (setcap n v s)) n = Some v"
  by (simp add: setcap_def)

lemma caps_reset_other: "n \<notin> set (groups r) \<Longrightarrow> map_of (caps (reset r s)) n = map_of (caps s) n"
  by (simp add: reset_def map_of_filter_key)

lemma matcher_untouched:
  "matcher f k s = Some z \<Longrightarrow> list_all (untouched n) k \<Longrightarrow> map_of (caps z) n = map_of (caps s) n"
proof (induction f k s rule: matcher.induct)
  case (3 f g st k s)
  then show ?case by (simp add: caps_setcap_other)
next
  case (5 f a as k s)
  then show ?case by (auto split: if_splits list.splits)
next
  case (6 f k s)
  then show ?case by (auto split: if_splits list.splits)
next
  case (7 f neg items k s)
  then show ?case by (auto split: if_splits list.splits)
next
  case (9 f a b k s)
  then show ?case by (auto split: option.splits)
next
  case (10 f g lo hi r k s)
  from "10.prems"(2) have u: "list_all (untouched n) k"
    "list_all (untouched n) (R r # R (Rep g (lo - 1) (dec hi) r) # k)"
    "list_all (untouched n) (R r # Prog (length (rest s)) # R (Rep g 0 (dec hi) r) # k)"
    and c: "map_of (caps (reset r s)) n = map_of (caps s) n"
    by (simp_all add: caps_reset_other)
  let ?it = "matcher f (R r # Prog (length (rest s)) # R (Rep g 0 (dec hi) r) # k) (reset r s)"
  consider (fin) "hi = Some 0" "matcher f k s = Some z"
    | (must) "hi \<noteq> Some 0" "0 < lo"
        "matcher f (R r # R (Rep g (lo - 1) (dec hi) r) # k) (reset r s) = Some z"
    | (greedy_it) "hi \<noteq> Some 0" "\<not> 0 < lo" "g" "?it = Some z"
    | (greedy_skip) "hi \<noteq> Some 0" "\<not> 0 < lo" "g" "?it = None" "matcher f k s = Some z"
    | (lazy_skip) "hi \<noteq> Some 0" "\<not> 0 < lo" "\<not> g" "matcher f k s = Some z"
    | (lazy_it) "hi \<noteq> Some 0" "\<not> 0 < lo" "\<not> g" "matcher f k s = None" "?it = Some z"
    using "10.prems"(1) by (auto split: if_splits option.splits)
  then show ?case
  proof cases
    case fin
    then show ?thesis using u(1) by (rule "10.IH"(1))
  next
    case must
    then have "map_of (caps z) n = map_of (caps (reset r s)) n" using u(2) by (rule "10.IH"(2))
    with c show ?thesis by simp
  next
    case greedy_it
    then have "map_of (caps z) n = map_of (caps (reset r s)) n" using u(3) by (rule "10.IH"(3))
    with c show ?thesis by simp
  next
    case greedy_skip
    then show ?thesis using u(1) by (rule "10.IH"(4))
  next
    case lazy_skip
    then show ?thesis using u(1) by (rule "10.IH"(5))
  next
    case lazy_it
    then have "map_of (caps z) n = map_of (caps (reset r s)) n" using u(3) by (rule "10.IH"(6))
    with c show ?thesis by simp
  qed
qed (auto split: if_splits)

lemma matcher_Seq_tail:
  "matcher f [R (Seq a b)] s = Some z \<Longrightarrow> \<exists>s'. matcher f [R b] s' = Some z"
  using matcher_tail [of f "[R a, R b]" s z "[R b]"] by simp

lemma fence_sets_code:
  assumes "matcher f [R fence_regex] s = Some z"
  shows "\<exists>code. map_of (caps z) 2 = Some code"
proof -
  let ?X = "star_lazy any_char"
  let ?L = "Lit ''```''"
  from assms obtain s1 where "matcher f [R (seq [opt (Grp 1 (plus1 (Class False [Word]))),
       Lit ''\<newline>'', Grp 2 ?X, ?L])] s1 = Some z"
    unfolding fence_regex_def using matcher_Seq_tail by (metis seq.simps(3))
  then obtain s2 where "matcher f [R (seq [Lit ''\<newline>'', Grp 2 ?X, ?L])] s2 = Some z"
    using matcher_Seq_tail by (metis seq.simps(3))
  then obtain s3 where "matcher f [R (seq [Grp 2 ?X, ?L])] s3 = Some z"
    using matcher_Seq_tail by (metis seq.simps(3))
  then have "matcher f [R ?X, Close 2 (rest s3), R ?L] s3 = Some z"
    by simp
  from matcher_tail [OF this, of "[Close 2 (rest s3), R ?L]"]
  obtain s4 where "matcher f [Close 2 (rest s3), R ?L] s4 = Some z"
    by auto
  then have m: "matcher f [R ?L] (setcap 2 (take (length (rest s3) - length (rest s4)) (rest s3)) s4) = Some z"
    by simp
  have "list_all (untouched 2) [R ?L]"
    by simp
  from matcher_untouched [OF m this] show ?thesis
    by (simp add: caps_setcap_same)
qed

lemma replace_fn_from_total:
  assumes "\<And>p cs z. matcher f [R r] (MState p cs []) = Some z \<Longrightarrow> \<exists>out. cb (caps z) = Inr out"
  shows "\<exists>t. replace_fn_from f r cb p cs = Inr t"
proof (induction cs arbitrary: p rule: length_induct)
  case (1 cs)
  have step: "\<exists>t. replace_fn_from f r cb q ds = Inr t" if "length ds < length cs" for q ds
    using 1 that by blast
  show ?case
  proof (cases "matcher f [R r] (MState p cs [])")
    case None
    show ?thesis
    proof (cases cs)
      case Nil
      with None show ?thesis by (subst replace_fn_from.simps) simp
    next
      case (Cons c cs')
      with step [of cs' "Some c"] obtain t where "replace_fn_from f r cb (Some c) cs' = Inr t"
        by auto
      with None Cons show ?thesis by (subst replace_fn_from.simps) simp
    qed
  next
    case (Some z)
    with assms obtain out where out: "cb (caps z) = Inr out"
      by blast
    let ?n = "length cs - length (rest z)"
    show ?thesis
    proof (cases "\<not> fg f")
      case True
      with Some out show ?thesis by (subst replace_fn_from.simps) simp
    next
      case g: False
      show ?thesis
      proof (cases "?n = 0")
        case True
        show ?thesis
        proof (cases cs)
          case Nil
          with Some out g True show ?thesis by (subst replace_fn_from.simps) simp
        next
          case (Cons c cs')
          with step [of cs' "Some c"] obtain t where "replace_fn_from f r cb (Some c) cs' = Inr t"
            by auto
          with Some out g True Cons show ?thesis by (subst replace_fn_from.simps) simp
        qed
      next
        case False
        then have "length (drop ?n cs) < length cs"
          by simp
        from step [OF this, of "Some (last (take ?n cs))"]
        obtain t where "replace_fn_from f r cb (Some (last (take ?n cs))) (drop ?n cs) = Inr t"
          by auto
        with Some out g False show ?thesis by (subst replace_fn_from.simps) simp
      qed
    qed
  qed
qed

lemma md_code_blocks_total: "\<exists>t. md_code_blocks h = Inr t"
  unfolding md_code_blocks_def replace_fn_def
proof (rule replace_fn_from_total)
  fix p cs z
  assume "matcher fl_gim [R fence_regex] (MState p cs []) = Some z"
  then obtain code where "map_of (caps z) 2 = Some code"
    using fence_sets_code by blast
  then show "\<exists>out. code_block (caps z) = Inr out"
    by (simp add: code_block_def Let_def)
qed

lemma starts_with_take: "starts_with s sub \<longleftrightarrow> take (length sub) s = sub"
  by (induction s sub rule: starts_with.induct) auto


lemma includes_str_iff: "includes_str s sub \<longleftrightarrow> (\<exists>u v. s = u @ v \<and> starts_with v sub)"
proof (induction s)
  case Nil
  then show ?case by (cases sub) auto
next
  case (Cons c cs)
  show ?case
  proof
    assume "includes_str (c # cs) sub"
    then consider "starts_with (c # cs) sub" | "includes_str cs sub" by auto
    then show "\<exists>u v. c # cs = u @ v \<and> starts_with v sub"
    proof cases
      case 1
      then have "c # cs = [] @ (c # cs) \<and> starts_with (c # cs) sub" by simp
      then show ?thesis by blast
    next
      case 2
      with Cons obtain u v where "cs = u @ v" "starts_with v sub" by blast
      then have "c # cs = (c # u) @ v \<and> starts_with v sub" by simp
      then show ?thesis by blast
    qed
  next
    assume "\<exists>u v. c # cs = u @ v \<and> starts_with v sub"
    then obtain u v where uv: "c # cs = u @ v" "starts_with v sub" by blast
    show "includes_str (c # cs) sub"
    proof (cases u)
      case Nil
      with uv show ?thesis by auto
    next
      case (Cons a u')
      with uv have "cs = u' @ v" by simp
      with uv(2) Cons.IH have "includes_str cs sub" by blast
      then show ?thesis by simp
    qed
  qed
qed

lemma canonicalize_cases:
  "canonicalize c = c \<or> canonicalize c \<in> set uppers"
proof (cases "map_of (zip lowers uppers) c")
  case None
  then show ?thesis by (simp add: canonicalize_def)
next
  case (Some u)
  then have "u \<in> set uppers"
    by (meson map_of_SomeD set_zip_rightD)
  with Some show ?thesis by (simp add: canonicalize_def)
qed

lemma canonicalize_plain:
  "a \<notin> set lowers \<Longrightarrow> canonicalize a = a"
proof -
  assume "a \<notin> set lowers"
  moreover have "length lowers = length uppers"
    by (simp add: lowers_def uppers_def)
  ultimately have "map_of (zip lowers uppers) a = None"
    by simp
  then show ?thesis by (simp add: canonicalize_def)
qed

lemma char_eq_plain:
  assumes "fi f \<longrightarrow> a \<notin> set lowers \<union> set uppers"
  shows "char_eq f a c = (a = c)"
proof (cases "fi f")
  case False
  then show ?thesis by (simp add: char_eq_def)
next
  case True
  with assms have a: "a \<notin> set lowers" "a \<notin> set uppers" by auto
  from canonicalize_cases [of c] a canonicalize_plain [OF a(1)] True
  show ?thesis by (auto simp: char_eq_def)
qed

lemma plain_lit_Cons:
  "plain_lit f (a # l) \<Longrightarrow> (fi f \<longrightarrow> a \<notin> set lowers \<union> set uppers) \<and> plain_lit f l"
  by (auto simp: plain_lit_def)

lemma matcher_Lit_fail:
  "plain_lit f l \<Longrightarrow> \<not> starts_with (rest s) l \<Longrightarrow> matcher f (R (Lit l) # k) s = None"
proof (induction l arbitrary: s)
  case Nil
  then show ?case by simp
next
  case (Cons a l)
  from plain_lit_Cons [OF Cons.prems(1)]
  have e: "\<And>c. char_eq f a c = (a = c)" and pl: "plain_lit f l"
    by (simp_all add: char_eq_plain)
  show ?case
  proof (cases "rest s")
    case Nil
    then show ?thesis by simp
  next
    case (Cons c cs)
    show ?thesis
    proof (cases "a = c")
      case False
      with Cons e show ?thesis by simp
    next
      case True
      with Cons.prems(2) \<open>rest s = c # cs\<close> have "\<not> starts_with cs l" by simp
      then have "matcher f (R (Lit l) # k) (MState (Some c) cs (caps s)) = None"
        using Cons.IH [OF pl, of "MState (Some c) cs (caps s)"] by simp
      with True \<open>rest s = c # cs\<close> e show ?thesis by simp
    qed
  qed
qed

lemma after_append: "after p (u @ v) = after (after p u) v"
  by (induction u arbitrary: p) auto

lemma after_nonempty: "u \<noteq> [] \<Longrightarrow> after p u = Some (last u)"
  by (induction u arbitrary: p) auto

lemma matcher_Lit_ok:
  "plain_lit f l \<Longrightarrow>
   matcher f (R (Lit l) # k) (MState p (l @ w) c) = matcher f k (MState (after p l) w c)"
proof (induction l arbitrary: p)
  case Nil
  then show ?case by simp
next
  case (Cons a l)
  from plain_lit_Cons [OF Cons.prems]
  have e: "\<And>c. char_eq f a c = (a = c)" and pl: "plain_lit f l"
    by (simp_all add: char_eq_plain)
  from Cons.IH [OF pl, of "Some a"] e show ?case by simp
qed

lemma reset_no_groups: "groups r = [] \<Longrightarrow> reset r s = s"
  by (cases s) (simp add: reset_def)

lemma star_Dot_unfold:
  "fs f \<Longrightarrow>
   matcher f (R (star Dot) # k) (MState p (c # cs) cp) =
     (case matcher f (R (star Dot) # k) (MState (Some c) cs cp) of
        Some z \<Rightarrow> Some z
      | None \<Rightarrow> matcher f k (MState p (c # cs) cp))"
  by (simp add: star_def reset_no_groups)

lemma star_Dot_Nil:
  "matcher f (R (star Dot) # k) (MState p [] cp) = matcher f k (MState p [] cp)"
  by (simp add: star_def reset_no_groups)

text \<open>The greedy star backtracks to the last position at which the continuation succeeds.\<close>

lemma star_Dot_none:
  assumes "fs f" and "\<And>v1 v2. v = v1 @ v2 \<Longrightarrow> matcher f k (MState (after p v1) v2 cp) = None"
  shows "matcher f (R (star Dot) # k) (MState p v cp) = None"
  using assms(2)
proof (induction v arbitrary: p)
  case Nil
  from Nil [of "[]" "[]"] show ?case by (simp add: star_Dot_Nil)
next
  case (Cons c v)
  have "matcher f (R (star Dot) # k) (MState (Some c) v cp) = None"
  proof (rule Cons.IH)
    fix v1 v2 assume "v = v1 @ v2"
    then have "c # v = (c # v1) @ v2" by simp
    from Cons.prems [OF this] show "matcher f k (MState (after (Some c) v1) v2 cp) = None"
      by simp
  qed
  moreover from Cons.prems [of "[]" "c # v"] have "matcher f k (MState p (c # v) cp) = None"
    by simp
  ultimately show ?case by (simp add: star_Dot_unfold [OF assms(1)])
qed

lemma star_Dot_last:
  assumes "fs f"
    and "matcher f k (MState (after p u) v cp) = Some z"
    and "\<And>v1 v2. v = v1 @ v2 \<Longrightarrow> v1 \<noteq> [] \<Longrightarrow> matcher f k (MState (after (after p u) v1) v2 cp) = None"
  shows "matcher f (R (star Dot) # k) (MState p (u @ v) cp) = Some z"
  using assms(2,3)
proof (induction u arbitrary: p)
  case Nil
  show ?case
  proof (cases v)
    case Nil
    with Nil.prems(1) show ?thesis by (simp add: star_Dot_Nil)
  next
    case (Cons c v')
    have "matcher f (R (star Dot) # k) (MState (Some c) v' cp) = None"
    proof (rule star_Dot_none [OF assms(1)])
      fix v1 v2 assume "v' = v1 @ v2"
      with Cons have "v = (c # v1) @ v2" "c # v1 \<noteq> []" by simp_all
      from Nil.prems(2) [OF this] show "matcher f k (MState (after (Some c) v1) v2 cp) = None"
        by simp
    qed
    with Nil.prems(1) Cons show ?thesis by (simp add: star_Dot_unfold [OF assms(1)])
  qed
next
  case (Cons c u)
  have "matcher f (R (star Dot) # k) (MState (Some c) (u @ v) cp) = Some z"
    using Cons.prems by (intro Cons.IH) simp_all
  then show ?case by (simp add: star_Dot_unfold [OF assms(1)])
qed

text \<open>The search skips a prefix in which the expression matches at no position.\<close>

lemma replace_from_skip:
  assumes "\<And>u v. pre = u @ v \<Longrightarrow> v \<noteq> [] \<Longrightarrow> matcher f [R r] (MState (after p u) (v @ w) []) = None"
  shows "replace_from f r tmpl p (pre @ w) = pre @ replace_from f r tmpl (after p pre) w"
  using assms
proof (induction pre arbitrary: p)
  case Nil
  then show ?case by simp
next
  case (Cons c pre)
  from Cons.prems [of "[]" "c # pre"]
  have n: "matcher f [R r] (MState p (c # pre @ w) []) = None" by simp
  have "replace_from f r tmpl (Some c) (pre @ w) = pre @ replace_from f r tmpl (after (Some c) pre) w"
  proof (rule Cons.IH)
    fix u v assume "pre = u @ v" "v \<noteq> []"
    then have "c # pre = (c # u) @ v" by simp
    from Cons.prems [OF this \<open>v \<noteq> []\<close>]
    show "matcher f [R r] (MState (after (Some c) u) (v @ w) []) = None" by simp
  qed
  with n show ?case
    by (subst replace_from.simps) simp
qed

lemma plain_lit_fl_s: "plain_lit fl_s l"
  by (simp add: plain_lit_def fl_s_def)

lemma includes_str_Nil: "includes_str s []"
  by (cases s) simp_all

lemma no_later_start:
  assumes "\<not> includes_str (tl b @ post) b" and "b @ post = v1 @ v2" and "v1 \<noteq> []"
  shows "\<not> starts_with v2 b"
proof
  assume st: "starts_with v2 b"
  show False
  proof (cases b)
    case Nil
    with assms(1) show False by (simp add: includes_str_Nil)
  next
    case (Cons c b')
    with assms(2,3) obtain v1' where "v1 = c # v1'" "b' @ post = v1' @ v2"
      by (cases v1) auto
    with st Cons have "includes_str (tl b @ post) b"
      unfolding includes_str_iff by auto
    with assms(1) show False by contradiction
  qed
qed

lemma no_earlier_start:
  assumes "\<not> includes_str (pre @ butlast a) a" and "pre = u @ v" and "v \<noteq> []"
  shows "\<not> starts_with (v @ a @ w) a"
proof
  assume st: "starts_with (v @ a @ w) a"
  show False
  proof (cases "a = []")
    case True
    with assms(1) show False by (simp add: includes_str_Nil)
  next
    case False
    then have a: "a = butlast a @ [last a]" by simp
    from False assms(3) have "length a \<le> length (v @ butlast a)"
      by (cases v) simp_all
    moreover from st a have "take (length a) ((v @ butlast a) @ [last a] @ w) = a"
      by (metis append.assoc starts_with_take)
    ultimately have "take (length a) (v @ butlast a) = a"
      by (simp del: append_assoc)
    then have "starts_with (v @ butlast a) a"
      by (simp add: starts_with_take)
    with assms(2) have "includes_str (pre @ butlast a) a"
      unfolding includes_str_iff by (intro exI [of _ u] exI [of _ "v @ butlast a"]) simp
    with assms(1) show False by contradiction
  qed
qed

text \<open>
  One match of \<open>(a.*b)\<close> under the \<open>s\<close> flag: from an \<open>a\<close> at the current position to the
  last \<open>b\<close> of the input.
\<close>

lemma span_match:
  assumes f: "fs f" "plain_lit f a" "plain_lit f b"
    and last: "\<not> includes_str (tl b @ post) b"
  shows "matcher f [R (Grp 1 (Seq (Lit a) (Seq (star Dot) (Lit b))))] (MState p (a @ mid @ b @ post) [])
         = Some (MState (after (after (after p a) mid) b) post [(1, a @ mid @ b)])"
proof -
  let ?st = "a @ mid @ b @ post"
  let ?k = "[R (Lit b), Close 1 ?st]"
  let ?z = "MState (after (after (after p a) mid) b) post [(1, a @ mid @ b)]"
  have "take (length ?st - length post) ((a @ mid @ b) @ post) = a @ mid @ b"
    by simp
  then have tk: "take (length ?st - length post) ?st = a @ mid @ b"
    by (simp only: append_assoc)
  have A: "matcher f ?k (MState (after (after p a) mid) (b @ post) []) = Some ?z"
    unfolding matcher_Lit_ok [OF f(3)] using tk by (simp add: setcap_def)
  have B: "matcher f ?k (MState (after (after (after p a) mid) v1) v2 []) = None"
    if "b @ post = v1 @ v2" "v1 \<noteq> []" for v1 v2
    using no_later_start [OF last that] by (intro matcher_Lit_fail [OF f(3)]) simp
  have "matcher f (R (star Dot) # ?k) (MState (after p a) (mid @ b @ post) []) = Some ?z"
    using f(1) A B by (rule star_Dot_last)
  then show ?thesis
    by (simp add: matcher_Lit_ok [OF f(2)])
qed

lemma span_no_match:
  assumes "plain_lit f a" and "\<not> starts_with cs a"
  shows "matcher f [R (Grp 1 (Seq (Lit a) r))] (MState p cs []) = None"
  using matcher_Lit_fail [OF assms(1), of "MState p cs []" "[R r, Close 1 cs]"] assms(2)
  by simp

lemma replace_first_span:
  assumes f: "\<not> fg f" "fs f" "plain_lit f a" "plain_lit f b"
    and first: "\<not> includes_str (pre @ butlast a) a"
    and last: "\<not> includes_str (tl b @ post) b"
  shows "replace_from f (Grp 1 (Seq (Lit a) (Seq (star Dot) (Lit b)))) [T x, G 1, T y] p
           (pre @ a @ mid @ b @ post)
         = pre @ x @ (a @ mid @ b) @ y @ post"
proof -
  let ?r = "Grp 1 (Seq (Lit a) (Seq (star Dot) (Lit b)))"
  let ?tmpl = "[T x, G 1, T y]"
  let ?w = "a @ mid @ b @ post"
  have "replace_from f ?r ?tmpl p (pre @ ?w) = pre @ replace_from f ?r ?tmpl (after p pre) ?w"
  proof (rule replace_from_skip)
    fix u v assume "pre = u @ v" "v \<noteq> []"
    from no_earlier_start [OF first this]
    show "matcher f [R ?r] (MState (after p u) (v @ ?w) []) = None"
      by (rule span_no_match [OF f(3)])
  qed
  moreover have "drop (length ?w - length post) ((a @ mid @ b) @ post) = post"
    by simp
  then have "drop (length ?w - length post) ?w = post"
    by (simp only: append_assoc)
  then have "replace_from f ?r ?tmpl (after p pre) ?w = x @ (a @ mid @ b) @ y @ post"
    using f(1)
    by (subst replace_from.simps, subst span_match [OF f(2,3,4) last]) simp
  ultimately show ?thesis by simp
qed

section \<open>The highlighter keeps its markup well formed\<close>

lemma matcher_run: "matcher f k s = Some z \<Longrightarrow> mrun f k s z"
proof (induction f k s rule: matcher.induct)
  case (1 f s)
  then show ?case by (auto intro: mrun.intros)
next
  case (2 f n k s)
  then show ?case by (auto intro: mrun.intros split: if_splits)
next
  case (3 f g st k s)
  then show ?case by (auto intro: mrun.intros)
next
  case (4 f k s)
  then show ?case by (auto intro: mrun.intros)
next
  case (5 f a as k s)
  then show ?case by (auto intro: mrun.intros split: list.splits if_splits)
next
  case (6 f k s)
  then show ?case by (auto intro: mrun.intros split: list.splits if_splits)
next
  case (7 f neg items k s)
  then show ?case by (auto intro: mrun.intros split: list.splits if_splits)
next
  case (8 f a b k s)
  then show ?case by (auto intro: mrun.intros)
next
  case (9 f a b k s)
  then show ?case by (auto intro: mrun.intros split: option.splits)
next
  case (10 f g lo hi r k s)
  let ?it = "matcher f (R r # Prog (length (rest s)) # R (Rep g 0 (dec hi) r) # k) (reset r s)"
  consider (fin) "hi = Some 0" "matcher f k s = Some z"
    | (must) "hi \<noteq> Some 0" "0 < lo"
        "matcher f (R r # R (Rep g (lo - 1) (dec hi) r) # k) (reset r s) = Some z"
    | (greedy_it) "hi \<noteq> Some 0" "\<not> 0 < lo" "g" "?it = Some z"
    | (greedy_skip) "hi \<noteq> Some 0" "\<not> 0 < lo" "g" "?it = None" "matcher f k s = Some z"
    | (lazy_skip) "hi \<noteq> Some 0" "\<not> 0 < lo" "\<not> g" "matcher f k s = Some z"
    | (lazy_it) "hi \<noteq> Some 0" "\<not> 0 < lo" "\<not> g" "matcher f k s = None" "?it = Some z"
    using "10.prems" by (auto split: if_splits option.splits)
  then show ?case
  proof cases
    case fin
    then have "mrun f k s z" by (rule "10.IH"(1))
    with fin show ?thesis by (auto intro: mrun.intros)
  next
    case must
    then have "mrun f (R r # R (Rep g (lo - 1) (dec hi) r) # k) (reset r s) z" by (rule "10.IH"(2))
    with must show ?thesis by (auto intro: mrun.intros)
  next
    case greedy_it
    then have "mrun f (R r # Prog (length (rest s)) # R (Rep g 0 (dec hi) r) # k) (reset r s) z"
      by (rule "10.IH"(3))
    with greedy_it show ?thesis by (auto intro: mrun.intros)
  next
    case greedy_skip
    then have "mrun f k s z" by (rule "10.IH"(4))
    with greedy_skip show ?thesis by (auto intro: mrun.intros)
  next
    case lazy_skip
    then have "mrun f k s z" by (rule "10.IH"(5))
    with lazy_skip show ?thesis by (auto intro: mrun.intros)
  next
    case lazy_it
    then have "mrun f (R r # Prog (length (rest s)) # R (Rep g 0 (dec hi) r) # k) (reset r s) z"
      by (rule "10.IH"(6))
    with lazy_it show ?thesis by (auto intro: mrun.intros)
  qed
next
  case (11 f n r k s)
  then show ?case by (auto intro: mrun.intros)
next
  case (12 f k s)
  then show ?case by (auto intro: mrun.intros split: if_splits)
next
  case (13 f k s)
  then show ?case by (auto intro: mrun.intros split: if_splits)
next
  case (14 f k s)
  then show ?case by (auto intro: mrun.intros split: if_splits)
qed


lemma char_eq_lt: "char_eq f a (CHR ''<'') = (a = CHR ''<'')"
proof -
  have "char_eq f (CHR ''<'') a = (CHR ''<'' = a)"
    by (rule char_eq_plain) (simp add: lowers_def uppers_def)
  then show ?thesis by (auto simp: char_eq_def)
qed

lemma frame_no_lt_step:
  "c \<noteq> CHR ''<'' \<Longrightarrow> frame_no_lt f (c # cs) fr \<Longrightarrow> frame_no_lt f cs fr"
proof (cases fr)
  case (Close g st)
  assume "c \<noteq> CHR ''<''" "frame_no_lt f (c # cs) fr"
  with Close obtain x where "st = x @ c # cs" "CHR ''<'' \<notin> set x" by auto
  then have "st = (x @ [c]) @ cs" "CHR ''<'' \<notin> set (x @ [c])"
    using \<open>c \<noteq> CHR ''<''\<close> by auto
  with Close show ?thesis by (metis frame_no_lt.simps(2))
qed auto

lemma frames_no_lt_step:
  "c \<noteq> CHR ''<'' \<Longrightarrow> list_all (frame_no_lt f (c # cs)) k \<Longrightarrow> list_all (frame_no_lt f cs) k"
  by (induction k) (auto intro: frame_no_lt_step)

lemma caps_no_lt_setcap:
  "caps_no_lt s \<Longrightarrow> CHR ''<'' \<notin> set v \<Longrightarrow> caps_no_lt (setcap g v s)"
  by (auto simp: caps_no_lt_def setcap_def)

lemma caps_no_lt_reset: "caps_no_lt s \<Longrightarrow> caps_no_lt (reset r s)"
  by (auto simp: caps_no_lt_def reset_def)

lemma rest_reset [simp]: "rest (reset r s) = rest s"
  by (simp add: reset_def)

lemma rest_setcap [simp]: "rest (setcap g v s) = rest s"
  by (simp add: setcap_def)

lemma mrun_no_lt:
  "mrun f k s z \<Longrightarrow> list_all (frame_no_lt f (rest s)) k \<Longrightarrow> caps_no_lt s \<Longrightarrow> caps_no_lt z"
proof (induction rule: mrun.induct)
  case (mrun_Close f k g st s z)
  from mrun_Close.prems(1) obtain x where x: "st = x @ rest s" "CHR ''<'' \<notin> set x"
    by auto
  then have t: "take (length st - length (rest s)) st = x" by simp
  have 1: "caps_no_lt (setcap g x s)"
    using mrun_Close.prems(2) x(2) by (rule caps_no_lt_setcap)
  have 2: "list_all (frame_no_lt f (rest (setcap g x s))) k"
    using mrun_Close.prems(1) by (simp add: setcap_def)
  from mrun_Close.IH [unfolded t, OF 2 1] show ?case .
next
  case (mrun_LitCons s c cs f a as k z)
  from mrun_LitCons.prems(1) mrun_LitCons.hyps(2) have c: "c \<noteq> CHR ''<''"
    by (auto simp: char_eq_lt)
  with mrun_LitCons.prems(1) mrun_LitCons.hyps(1)
  have "list_all (frame_no_lt f cs) (R (Lit as) # k)"
    by (auto intro: frames_no_lt_step)
  with mrun_LitCons show ?case by (simp add: caps_no_lt_def)
next
  case (mrun_Dot s c cs f k z)
  then show ?case by simp
next
  case (mrun_Class s c cs f items neg k z)
  from mrun_Class.prems(1) mrun_Class.hyps(2) have c: "c \<noteq> CHR ''<''"
    by auto
  with mrun_Class.prems(1) mrun_Class.hyps(1)
  have "list_all (frame_no_lt f cs) k"
    by (auto intro: frames_no_lt_step)
  with mrun_Class show ?case by (simp add: caps_no_lt_def)
next
  case (mrun_Grp f r n s k z)
  then show ?case by simp
qed (auto simp: caps_no_lt_reset)









lemma no_lt_span_markup: "CHR ''<'' \<notin> set s \<Longrightarrow> span_markup s"
  by (induction s) auto




text \<open>An expression that cannot consume \<open><\<close> has no \<open><\<close> in its captures.\<close>

lemma caps_no_lt:
  assumes "\<not> eats_lt f r" "matcher f [R r] (MState p cs []) = Some s" "map_of (caps s) g = Some v"
  shows "span_markup v"
proof -
  have "caps_no_lt s"
    by (rule mrun_no_lt [OF matcher_run [OF assms(2)]]) (use assms(1) in \<open>simp_all add: caps_no_lt_def\<close>)
  with map_of_SomeD [OF assms(3)] have "CHR ''<'' \<notin> set v"
    by (auto simp: caps_no_lt_def)
  then show ?thesis by (rule no_lt_span_markup)
qed

































section \<open>A fenced block of two words, pass by pass\<close>







lemma plain_char_not_special:
  assumes "plain_char c"
  shows "c \<noteq> CHR ''#''" "c \<noteq> CHR ''*''" "c \<noteq> CHR 0x60" "c \<noteq> CHR ''[''" "c \<noteq> CHR ''-''"
    "c \<noteq> CHR ''<''" "c \<noteq> CHR ''>''" "c \<noteq> CHR ''&''" "c \<noteq> CHR 0x0A" "c \<noteq> CHR 0xA0"
    "\<not> is_digit c" "\<not> is_space c" "\<not> is_line_terminator c"
  using assms by (auto simp: plain_char_def is_space_def is_line_terminator_def)


lemma char_eq_special [simp]:
  "char_eq f (CHR ''#'') c = (CHR ''#'' = c)"
  "char_eq f (CHR ''*'') c = (CHR ''*'' = c)"
  "char_eq f (CHR 0x60) c = (CHR 0x60 = c)"
  "char_eq f (CHR ''['') c = (CHR ''['' = c)"
  "char_eq f (CHR ''-'') c = (CHR ''-'' = c)"
  "char_eq f (CHR ''<'') c = (CHR ''<'' = c)"
  "char_eq f (CHR 0x0A) c = (CHR 0x0A = c)"
  by (rule char_eq_plain; simp add: lowers_def uppers_def)+


lemma plainfail_lit_first:
  "c0 \<in> set ''#*`[-<\<newline>'' \<Longrightarrow> plainfail f (seq (Lit (c0 # l) # rs))"
  by (cases rs) (auto simp: plainfail_def dest: plain_char_not_special)


lemma after_plain_word:
  assumes "plain_word a"
  shows "\<exists>c. after p a = Some c \<and> plain_char c"
proof -
  from assms have "a \<noteq> []" "plain_char (last a)"
    by (auto simp: plain_word_def list_all_iff)
  then show ?thesis by (simp add: after_nonempty)
qed

lemma at_bol_after_plain [simp]:
  "plain_word a \<Longrightarrow> at_bol f (after p a) = False"
  using after_plain_word [of a p] by (auto dest: plain_char_not_special)



lemma char_eq_refl [simp]: "char_eq f a a"
  by (simp add: char_eq_def)






lemma in_class_any [simp]: "in_class f [Space, NonSpace] c"
  by (simp add: in_class_def)










lemma matcher_Lit_plain_word [simp]:
  assumes "plain_word b" \<open>c0 \<in> set ''#*`[-<\<newline>''\<close>
  shows "matcher f (R (Lit (c0 # l)) # k) (MState p (b @ w) cp) = None"
proof -
  from assms(1) obtain c b' where "b = c # b'" "plain_char c"
    by (cases b) (auto simp: plain_word_def)
  with assms(2) show ?thesis
    by (auto dest: plain_char_not_special)
qed


















lemma case_plain_word [simp]:
  assumes "plain_word b" \<open>c0 \<in> set ''#*`[-<\<newline>''\<close>
  shows "(case b @ w of [] \<Rightarrow> None | c # cs \<Rightarrow> if char_eq f c0 c then g c cs else None) = None"
proof -
  from assms(1) obtain c b' where "b = c # b'" "plain_char c"
    by (cases b) (auto simp: plain_word_def)
  with assms(2) show ?thesis
    by (auto dest: plain_char_not_special)
qed











section \<open>The guide catalog: mark-as-viewed and the category query\<close>

lemma markAsViewed_nth:
  "k < length (guidesSubject svc) \<Longrightarrow>
   guidesSubject (markAsViewed i svc) ! k =
     (if id_guide (guidesSubject svc ! k) = i then (guidesSubject svc ! k)\<lparr>isViewed := Some True\<rparr>
      else guidesSubject svc ! k)"
  by (simp add: markAsViewed_def)

lemma find_map_viewed:
  "find (\<lambda>g. id_guide g = i) gs = Some g \<Longrightarrow>
   find (\<lambda>g. id_guide g = i)
     (map (\<lambda>guide. if id_guide guide = i then guide\<lparr>isViewed := Some True\<rparr> else guide) gs)
   = Some (g\<lparr>isViewed := Some True\<rparr>)"
  by (induction gs) (auto split: if_splits)

text \<open>
  Claim C7. For every catalog and every id, \<open>markAsViewed\<close> keeps the length and the
  positions of the catalog; the record at a position is the old one with \<open>isViewed\<close> set
  to \<open>true\<close> when its id is the given one (all its other fields unchanged), and is the old
  record otherwise. When the id is present, a later \<open>getGuideById\<close> returns the found
  record with \<open>isViewed = true\<close>. A second call changes nothing. The operation is a total
  function: it has no error.
\<close>

theorem markAsViewed_frame:
  "length (guidesSubject (markAsViewed i svc)) = length (guidesSubject svc)
   \<and> (\<forall>k < length (guidesSubject svc).
         guidesSubject (markAsViewed i svc) ! k =
           (if id_guide (guidesSubject svc ! k) = i
            then (guidesSubject svc ! k)\<lparr>isViewed := Some True\<rparr>
            else guidesSubject svc ! k))
   \<and> (\<forall>g. getGuideById i svc = Some g \<longrightarrow>
         getGuideById i (markAsViewed i svc) = Some (g\<lparr>isViewed := Some True\<rparr>))
   \<and> markAsViewed i (markAsViewed i svc) = markAsViewed i svc"
proof (intro conjI allI impI)
  show "length (guidesSubject (markAsViewed i svc)) = length (guidesSubject svc)"
    by (simp add: markAsViewed_def)
next
  fix k assume "k < length (guidesSubject svc)"
  then show "guidesSubject (markAsViewed i svc) ! k =
           (if id_guide (guidesSubject svc ! k) = i
            then (guidesSubject svc ! k)\<lparr>isViewed := Some True\<rparr>
            else guidesSubject svc ! k)"
    by (rule markAsViewed_nth)
next
  fix g assume "getGuideById i svc = Some g"
  then show "getGuideById i (markAsViewed i svc) = Some (g\<lparr>isViewed := Some True\<rparr>)"
    by (simp add: getGuideById_def markAsViewed_def find_map_viewed)
next
  show "markAsViewed i (markAsViewed i svc) = markAsViewed i svc"
    by (simp add: markAsViewed_def comp_def cong: map_cong)
qed

theorem markAsViewed_frame_witness:
  "getGuideById ''a'' catalog0 = Some (guidesSubject catalog0 ! 2)
   \<and> getGuideById ''a'' (markAsViewed ''a'' catalog0)
       = Some ((guidesSubject catalog0 ! 2)\<lparr>isViewed := Some True\<rparr>)
   \<and> guidesSubject (markAsViewed ''a'' catalog0) ! 0 = guidesSubject catalog0 ! 0
   \<and> guidesSubject (markAsViewed ''a'' catalog0) ! 1 = guidesSubject catalog0 ! 1
   \<and> guidesSubject (markAsViewed ''a'' catalog0) ! 2
       = (guidesSubject catalog0 ! 2)\<lparr>isViewed := Some True\<rparr>
   \<and> markAsViewed ''a'' (markAsViewed ''a'' catalog0) = markAsViewed ''a'' catalog0"
proof -
  have g: "getGuideById ''a'' catalog0 = Some (guidesSubject catalog0 ! 2)"
    by (simp add: getGuideById_def catalog0_def)
  have l: "length (guidesSubject catalog0) = 3"
    by (simp add: catalog0_def)
  have i0: "id_guide (guidesSubject catalog0 ! 0) \<noteq> ''a''"
    and i1: "id_guide (guidesSubject catalog0 ! 1) \<noteq> ''a''"
    and i2: "id_guide (guidesSubject catalog0 ! 2) = ''a''"
    by (simp_all add: catalog0_def)
  note t = markAsViewed_frame [of "''a''" catalog0]
  from t g have "getGuideById ''a'' (markAsViewed ''a'' catalog0)
       = Some ((guidesSubject catalog0 ! 2)\<lparr>isViewed := Some True\<rparr>)"
    by blast
  moreover from t l i0
  have "guidesSubject (markAsViewed ''a'' catalog0) ! 0 = guidesSubject catalog0 ! 0"
    by simp
  moreover from t l i1
  have "guidesSubject (markAsViewed ''a'' catalog0) ! 1 = guidesSubject catalog0 ! 1"
    by simp
  moreover from t l i2
  have "guidesSubject (markAsViewed ''a'' catalog0) ! 2
       = (guidesSubject catalog0 ! 2)\<lparr>isViewed := Some True\<rparr>"
    by simp
  moreover from t
  have "markAsViewed ''a'' (markAsViewed ''a'' catalog0) = markAsViewed ''a'' catalog0"
    by blast
  ultimately show ?thesis using g by blast
qed

lemma call_keeps_viewed:
  assumes "k < length (guidesSubject svc)" "isViewed (guidesSubject svc ! k) = Some True"
  shows "k < length (guidesSubject (snd (call op svc)))
     \<and> id_guide (guidesSubject (snd (call op svc)) ! k) = id_guide (guidesSubject svc ! k)
     \<and> isViewed (guidesSubject (snd (call op svc)) ! k) = Some True"
  using assms by (cases op) (simp_all add: markAsViewed_def)

text \<open>
  Claim C8. Take any catalog state and a record in it whose \<open>isViewed\<close> is \<open>true\<close>. After
  any sequence of calls of the service's operations (\<open>getGuides\<close>, \<open>getGuideById\<close>,
  \<open>getGuidesByCategory\<close>, \<open>searchGuides\<close>, \<open>markAsViewed\<close>) the record at that position is
  still the record of that id, and its \<open>isViewed\<close> is still \<open>true\<close>.
\<close>

theorem isViewed_never_reverts:
  assumes "k < length (guidesSubject svc)" and "isViewed (guidesSubject svc ! k) = Some True"
  shows "k < length (guidesSubject (run ops svc))
     \<and> id_guide (guidesSubject (run ops svc) ! k) = id_guide (guidesSubject svc ! k)
     \<and> isViewed (guidesSubject (run ops svc) ! k) = Some True"
  using assms
proof (induction ops arbitrary: svc)
  case Nil
  then show ?case by simp
next
  case (Cons op ops)
  from call_keeps_viewed [OF Cons.prems, of op]
  have 1: "k < length (guidesSubject (snd (call op svc)))"
    and 2: "id_guide (guidesSubject (snd (call op svc)) ! k) = id_guide (guidesSubject svc ! k)"
    and 3: "isViewed (guidesSubject (snd (call op svc)) ! k) = Some True"
    by simp_all
  from Cons.IH [OF 1 3] 2 show ?case by simp
qed

theorem isViewed_never_reverts_witness:
  "1 < length (guidesSubject catalog0) \<and> isViewed (guidesSubject catalog0 ! 1) = Some True
   \<and> isViewed (guidesSubject
        (run [MarkAsViewed ''a'', GetGuides, SearchGuides ''b'', GetGuidesByCategory BACKEND,
              GetGuideById ''f'', MarkAsViewed ''f''] catalog0) ! 1) = Some True"
proof -
  have a: "1 < length (guidesSubject catalog0)"
    and b: "isViewed (guidesSubject catalog0 ! 1) = Some True"
    by (simp_all add: catalog0_def)
  from isViewed_never_reverts [OF a b] a b show ?thesis by blast
qed

text \<open>
  Claim C9. For every catalog and category, \<open>getGuidesByCategory\<close> returns exactly the
  records of that category (as a multiset: each as often as the catalog holds it), in
  ascending order of \<open>order\<close>. In particular, of two records of the category with
  different \<open>order\<close> the one with the smaller \<open>order\<close> comes first, however the catalog
  stores them.
\<close>

theorem getGuidesByCategory_sorted:
  "mset (getGuidesByCategory c svc) = mset (filter (\<lambda>g. category g = c) (guidesSubject svc))
   \<and> sorted (map order (getGuidesByCategory c svc))
   \<and> (\<forall>a b. category a = c \<and> category b = c \<and> order a < order b \<longrightarrow>
         getGuidesByCategory c (svc\<lparr>guidesSubject := [a, b]\<rparr>) = [a, b]
         \<and> getGuidesByCategory c (svc\<lparr>guidesSubject := [b, a]\<rparr>) = [a, b])"
  by (auto simp: getGuidesByCategory_def)

theorem getGuidesByCategory_sorted_witness:
  "getGuidesByCategory BACKEND catalog0 = [guidesSubject catalog0 ! 2, guidesSubject catalog0 ! 0]
   \<and> order (guidesSubject catalog0 ! 2) < order (guidesSubject catalog0 ! 0)"
proof -
  let ?a = "guidesSubject catalog0 ! 2" and ?b = "guidesSubject catalog0 ! 0"
  have h: "category ?a = BACKEND \<and> category ?b = BACKEND \<and> order ?a < order ?b"
    by (simp add: catalog0_def)
  have "getGuidesByCategory BACKEND catalog0
      = getGuidesByCategory BACKEND (catalog0\<lparr>guidesSubject := [?b, ?a]\<rparr>)"
    by (simp add: getGuidesByCategory_def catalog0_def)
  with getGuidesByCategory_sorted [of BACKEND catalog0] h show ?thesis by metis
qed

section \<open>The highlighter: escape first, escape only for an unknown language\<close>









section \<open>The renderer on the examples of the specification\<close>

text \<open>
  Claim C3 (the code does not do what the claim says). The output for the Java block
  holds the wrapper \<open>div\<close> of class \<open>code-wrapper\<close>, the \<open>code\<close> element of class
  \<open>language-java\<close> and \<open>Foo\<close> in a \<open>span\<close> of class \<open>class\<close>. The keywords are not
  wrapped in \<open><span class="keyword">\<close>: the keyword pass for \<open>class\<close> matches the attribute
  name of the span that the pass for \<open>public\<close> has just written, and the pass for
  string literals then wraps every \<open>"keyword"\<close> attribute value. No \<open><span class="keyword">\<close>
  is left in the output.
\<close>

theorem render_java_block:
  \<open>renderMarkdown ''```java\<newline>public class Foo {}\<newline>```'' =
     Inr ''<div class="code-wrapper"><pre><code class="language-java"><span <span class=<span class="string">"keyword"</span>>class</span>=<span class="string">"keyword"</span>>public</span> <span class=<span class="string">"keyword"</span>>class</span> <span class="class">Foo</span> {}</code></pre></div>''
   \<and> highlightCode ''public class Foo {}'' (Some ''java'') =
     ''<span <span class=<span class="string">"keyword"</span>>class</span>=<span class="string">"keyword"</span>>public</span> <span class=<span class="string">"keyword"</span>>class</span> <span class="class">Foo</span> {}''
   \<and> \<not> includes_str (highlightCode ''public class Foo {}'' (Some ''java'')) ''<span class="keyword">''\<close>
  by code_simp

text \<open>
  Claim C5. \<open>renderMarkdown "# Title"\<close> is exactly \<open><h1>Title</h1>\<close>: the paragraph pass
  wraps the heading in \<open><p>\<close> and \<open></p>\<close>, and the cleanup pass removes both.
\<close>

theorem render_heading:
  \<open>renderMarkdown ''# Title'' = Inr ''<h1>Title</h1>''
   \<and> md_headers ''# Title'' = ''<h1>Title</h1>''
   \<and> md_paragraphs ''<h1>Title</h1>'' = ''<p><h1>Title</h1></p>''
   \<and> md_cleanup ''<p><h1>Title</h1></p>'' = ''<h1>Title</h1>''\<close>
  by code_simp

text \<open>
  Claim C6. \<open>renderMarkdown "**bold** and *italic*"\<close> holds \<open><strong>bold</strong>\<close> and
  then \<open><em>italic</em>\<close>. The bold pass runs first and consumes the double asterisks;
  the italic pass alone would split them into two empty \<open><em></em>\<close>.
\<close>

theorem render_bold_italic:
  \<open>renderMarkdown ''**bold** and *italic*'' = Inr ''<p><strong>bold</strong> and <em>italic</em></p>''
   \<and> md_bold ''**bold** and *italic*'' = ''<strong>bold</strong> and *italic*''
   \<and> md_italic (md_bold ''**bold** and *italic*'') = ''<strong>bold</strong> and <em>italic</em>''
   \<and> md_italic ''**bold** and *italic*'' = ''<em></em>bold<em></em> and <em>italic</em>''\<close>
  by code_simp

section \<open>The renderer on every input\<close>

text \<open>
  Claim C1. \<open>renderMarkdown\<close> returns a string on every input. Termination is the
  termination of \<open>matcher\<close>, \<open>replace_from\<close> and \<open>replace_fn_from\<close>, proved where they are
  defined. The only operation of the renderer that can throw is \<open>code.trim()\<close> in the
  replacer of the fenced code blocks, on an undefined \<open>code\<close>; the second group of the
  fence expression takes part in every match (\<open>fence_sets_code\<close>), so the value
  is never \<open>Inl\<close>. An unmatched fence is left as literal text.
\<close>

theorem renderMarkdown_total:
  \<open>(\<exists>html. renderMarkdown markdown = Inr html)
   \<and> renderMarkdown ''```java\<newline>x'' = Inr ''<p>```java\<newline>x</p>''\<close>
proof -
  obtain t where "md_code_blocks (md_italic (md_bold (md_headers markdown))) = Inr t"
    using md_code_blocks_total by blast
  then have "\<exists>html. renderMarkdown markdown = Inr html"
    by (simp add: renderMarkdown_def Let_def)
  moreover have \<open>renderMarkdown ''```java\<newline>x'' = Inr ''<p>```java\<newline>x</p>''\<close>
    by code_simp
  ultimately show ?thesis by blast
qed

section \<open>The unordered-list wrap pass\<close>

text \<open>
  Claim C2, as stated, fails: the second list run of the document below ends inside the
  \<open><ul>\<close> element, since \<open>/(<li>.*<\/li>)/s\<close> is greedy and its \<open>.\<close> matches line
  terminators. No \<open><li>\<close> of the output is outside every \<open><ul>\<close>.
\<close>

theorem md_ul_wrap_counterexample:
  \<open>renderMarkdown ''- a\<newline>\<newline>text\<newline>\<newline>- b'' = Inr ''<ul><li>a</li></p><p>text</p><p><li>b</li></ul>''
   \<and> md_ul_wrap ''<li>a</li>\<newline>\<newline>text\<newline>\<newline><li>b</li>'' = ''<ul><li>a</li>\<newline>\<newline>text\<newline>\<newline><li>b</li></ul>''
   \<and> \<not> li_outside 0 ''<ul><li>a</li></p><p>text</p><p><li>b</li></ul>''\<close>
  by code_simp

text \<open>
  Claim C2, amended. The wrap pass makes one match, from the first \<open><li>\<close> of the text
  to its last \<open></li>\<close>, and wraps that whole span in a single \<open><ul>\<close> element: when no
  \<open><li>\<close> starts before the shown one (\<open>pre\<close> followed by \<open><li\<close> holds no \<open><li>\<close>) and no
  \<open></li>\<close> starts behind the shown one, the text \<open>pre <li> mid </li> post\<close> becomes
  \<open>pre <ul><li> mid </li></ul> post\<close>, whatever \<open>mid\<close> holds. So with two list runs
  separated by other text, both runs and the text between them are inside the one
  \<open><ul>\<close> element.
\<close>

theorem md_ul_wrap_span:
  assumes "\<not> includes_str (pre @ ''<li'') ''<li>''"
    and "\<not> includes_str (''/li>'' @ post) ''</li>''"
  shows "md_ul_wrap (pre @ ''<li>'' @ mid @ ''</li>'' @ post)
       = pre @ ''<ul><li>'' @ mid @ ''</li></ul>'' @ post"
proof -
  have f: "\<not> fg fl_s" "fs fl_s"
    by (simp_all add: fl_s_def)
  have 1: "\<not> includes_str (pre @ butlast ''<li>'') ''<li>''"
    using assms(1) by simp
  have 2: "\<not> includes_str (tl ''</li>'' @ post) ''</li>''"
    using assms(2) by simp
  have "md_ul_wrap (pre @ ''<li>'' @ mid @ ''</li>'' @ post)
      = pre @ ''<ul>'' @ (''<li>'' @ mid @ ''</li>'') @ ''</ul>'' @ post"
    unfolding md_ul_wrap_def replace_def seq.simps
    by (rule replace_first_span [OF f plain_lit_fl_s plain_lit_fl_s 1 2])
  then show ?thesis by simp
qed

theorem md_ul_wrap_span_witness:
  \<open>md_ul_wrap ''<h1>t</h1>\<newline><li>a</li>\<newline>\<newline>text\<newline>\<newline><li>b</li>\<newline>end''
     = ''<h1>t</h1>\<newline><ul><li>a</li>\<newline>\<newline>text\<newline>\<newline><li>b</li></ul>\<newline>end''\<close>
proof -
  have 1: \<open>\<not> includes_str (''<h1>t</h1>\<newline>'' @ ''<li'') ''<li>''\<close>
    by simp
  have 2: \<open>\<not> includes_str (''/li>'' @ ''\<newline>end'') ''</li>''\<close>
    by simp
  from md_ul_wrap_span [OF 1 2, of \<open>''a</li>\<newline>\<newline>text\<newline>\<newline><li>b''\<close>]
  show ?thesis by simp
qed
section \<open>Blank lines of a fenced code block\<close>




end
